theory Spec2Isabelle
  imports Complex_Main "HOL-Library.Multiset" "HOL-Library.Option_ord" "HOL-Library.Log_Nat"
begin

section \<open>Errors, numbers and arrays\<close>

text \<open>
  Integers (block numbers, block timestamps, token amounts held in BN big integers) are
  \<open>int\<close>, every other JavaScript number is a \<open>rat\<close>. The operations \<open>js_add\<close>,
  \<open>js_sub\<close>, \<open>js_mul\<close> and \<open>js_div\<close> below are exact; the rounding of IEEE doubles
  is added to them in the section on double arithmetic, for the statements that depend on
  it. A value that may be \<open>undefined\<close> or \<open>NaN\<close> is an \<open>option\<close>, \<open>None\<close> standing
  for both (an arithmetic operation on \<open>undefined\<close> yields \<open>NaN\<close>, and \<open>NaN\<close> is
  absorbing).
\<close>

datatype error =
    AssertionError string   \<comment> \<open>a failed \<open>assert(cond, message)\<close>\<close>
  | TypeError               \<comment> \<open>a property read on \<open>undefined\<close>\<close>
  | NoPriceAvailable        \<comment> \<open>the string thrown by \<open>getCoingeckoPriceAt\<close>\<close>

definition js_add :: "rat option \<Rightarrow> rat option \<Rightarrow> rat option" where
  "js_add a b = (case a of None \<Rightarrow> None | Some x \<Rightarrow> (case b of None \<Rightarrow> None | Some y \<Rightarrow> Some (x + y)))"

definition js_sub :: "rat option \<Rightarrow> rat option \<Rightarrow> rat option" where
  "js_sub a b = (case a of None \<Rightarrow> None | Some x \<Rightarrow> (case b of None \<Rightarrow> None | Some y \<Rightarrow> Some (x - y)))"

definition js_mul :: "rat option \<Rightarrow> rat option \<Rightarrow> rat option" where
  "js_mul a b = (case a of None \<Rightarrow> None | Some x \<Rightarrow> (case b of None \<Rightarrow> None | Some y \<Rightarrow> Some (x * y)))"

text \<open>Division by zero gives an infinity or \<open>NaN\<close>; neither is a rational, both are \<open>None\<close>.\<close>

definition js_div :: "rat option \<Rightarrow> rat option \<Rightarrow> rat option" where
  "js_div a b = (case a of None \<Rightarrow> None | Some x \<Rightarrow>
     (case b of None \<Rightarrow> None | Some y \<Rightarrow> if y = 0 then None else Some (x / y)))"

text \<open>\<open>Array.prototype.findIndex\<close>: the first index whose element satisfies the predicate, or -1.\<close>

fun findIndex :: "('a \<Rightarrow> bool) \<Rightarrow> 'a list \<Rightarrow> int" where
  "findIndex P [] = -1"
| "findIndex P (x # xs) =
     (if P x then 0 else (let r = findIndex P xs in if r = -1 then -1 else r + 1))"

text \<open>\<open>xs.splice(i, 0, x)\<close>: insert \<open>x\<close> before position \<open>i\<close>.\<close>

definition splice :: "nat \<Rightarrow> 'a \<Rightarrow> 'a list \<Rightarrow> 'a list" where
  "splice i x xs = take i xs @ x # drop i xs"

text \<open>\<open>xs.slice(-1)[0]\<close>: the last element, \<open>undefined\<close> on the empty array.\<close>

definition lastItem :: "'a list \<Rightarrow> 'a option" where
  "lastItem xs = (case rev xs of [] \<Rightarrow> None | x # _ \<Rightarrow> Some x)"

section \<open>BlockFinder\<close>

text \<open>
  A block as the finder reads it. The field \<open>timestamp\<close> of a block is named
  \<open>blockTimestamp\<close> here. Block numbers and block timestamps are integers.
\<close>

record block =
  number :: int
  blockTimestamp :: int

text \<open>
  The argument of the injected \<open>requestBlock\<close> function: the string "latest" or a block
  number. The function is a parameter of every operation; the chain is taken as fixed
  during a run, so it is a function of its argument only.
\<close>

datatype blockId = Latest | BlockNumber int

type_synonym requestBlock = "blockId \<Rightarrow> block"

text \<open>
  Modelled from lodash's documentation, lodash being a library outside the repository:
  \<open>sortedIndexBy(array, value, iteratee)\<close> is the lowest index at which the value can be
  inserted into the sorted array keeping it sorted, that is, the number of leading entries
  whose key is smaller. The second argument is the key of the value.
\<close>

definition sortedIndexBy :: "'a list \<Rightarrow> int \<Rightarrow> ('a \<Rightarrow> int) \<Rightarrow> nat" where
  "sortedIndexBy array v key = length (takeWhile (\<lambda>x. key x < v) array)"

text \<open>Modelled from lodash's documentation: \<open>clamp(number, lower, upper)\<close>.\<close>

definition clamp :: "int \<Rightarrow> int \<Rightarrow> int \<Rightarrow> int" where
  "clamp n lower upper =
     (let n1 = (if n \<le> upper then n else upper) in if n1 \<ge> lower then n1 else lower)"

text \<open>\<open>Math.round\<close>: the nearest integer, a half rounded up.\<close>

definition js_round :: "rat \<Rightarrow> int" where
  "js_round x = \<lfloor>x + 1 / 2\<rfloor>"

text \<open>An array read \<open>xs[i]\<close>: \<open>undefined\<close> outside the array, also at index -1.\<close>

definition nthOpt :: "'a list \<Rightarrow> int \<Rightarrow> 'a option" where
  "nthOpt xs i = (if 0 \<le> i \<and> i < int (length xs) then Some (xs ! nat i) else None)"

text \<open>\<open>getLatestBlock\<close> and \<open>getBlock\<close> return the block and the cache they leave.\<close>

definition getLatestBlock :: "requestBlock \<Rightarrow> block list \<Rightarrow> block \<times> block list" where
  "getLatestBlock requestBlock blocks =
     (let block = requestBlock Latest;
          index = sortedIndexBy blocks (number block) number;
          blocks' = (case nthOpt blocks (int index) of
                       None \<Rightarrow> splice index block blocks
                     | Some b \<Rightarrow> if number b \<noteq> number block then splice index block blocks else blocks)
      in (blocks' ! index, blocks'))"

definition getBlock :: "requestBlock \<Rightarrow> block list \<Rightarrow> int \<Rightarrow> block \<times> block list" where
  "getBlock requestBlock blocks n =
     (let index = sortedIndexBy blocks n number in
      case nthOpt blocks (int index) of
        Some b \<Rightarrow>
          if number b = n then (b, blocks)
          else (let block = requestBlock (BlockNumber n) in (block, splice index block blocks))
      | None \<Rightarrow> (let block = requestBlock (BlockNumber n) in (block, splice index block blocks)))"

text \<open>
  \<open>averageBlockTimeSeconds(lookbackSeconds, networkId)\<close> and \<open>estimateBlocksElapsed\<close>; the
  finder calls the former without arguments, so the network id is \<open>undefined\<close>.
\<close>

definition averageBlockTimeSeconds :: "int option \<Rightarrow> rat" where
  "averageBlockTimeSeconds networkId =
     (case networkId of
        Some n \<Rightarrow> if n = 137 then 5 / 2 else 27 / 2
      | None \<Rightarrow> 27 / 2)"

definition estimateBlocksElapsed :: "int \<Rightarrow> rat \<Rightarrow> int" where
  "estimateBlocksElapsed seconds cushionPercentage =
     (let cushionMultiplier = cushionPercentage + 1;
          averageBlockTime = averageBlockTimeSeconds None
      in \<lfloor>(of_int seconds * cushionMultiplier) / averageBlockTime\<rfloor>)"

text \<open>
  The backward search of \<open>getBlockForTimestamp\<close>, the loop
  \<open>for (let multiplier = 1; ; multiplier++)\<close>. It returns the error it threw, if any, and
  the cache.
\<close>

partial_function (option) searchBackwards ::
  "requestBlock \<Rightarrow> block list \<Rightarrow> int \<Rightarrow> block \<Rightarrow> int \<Rightarrow> int \<Rightarrow> (error option \<times> block list) option" where
  "searchBackwards requestBlock blocks timestamp initialBlock incrementDistance multiplier =
     (let distance = multiplier * incrementDistance;
          blockNumber = max 0 (number initialBlock - distance);
          r = getBlock requestBlock blocks blockNumber
      in if blockTimestamp (fst r) \<le> timestamp then Some (None, snd r)
         else if \<not> blockNumber > 0 then Some (Some (AssertionError ''timestamp is before block 0''), snd r)
         else searchBackwards requestBlock (snd r) timestamp initialBlock incrementDistance (multiplier + 1))"

declare searchBackwards.simps [code]

text \<open>\<open>findBlock\<close>; either argument block may be \<open>undefined\<close> (an array read out of range).\<close>

partial_function (option) findBlock ::
  "requestBlock \<Rightarrow> block list \<Rightarrow> block option \<Rightarrow> block option \<Rightarrow> int
     \<Rightarrow> ((error + block) \<times> block list) option" where
  "findBlock requestBlock blocks startBlock endBlock timestamp =
     (case endBlock of
        None \<Rightarrow> Some (Inl TypeError, blocks)
      | Some e \<Rightarrow>
          if blockTimestamp e = timestamp then Some (Inr e, blocks)
          else
            (case startBlock of
               None \<Rightarrow> Some (Inl TypeError, blocks)
             | Some s \<Rightarrow>
                 if number e = number s + 1 then Some (Inr s, blocks)
                 else if \<not> number e \<noteq> number s then
                   Some (Inl (AssertionError ''startBlock cannot equal endBlock''), blocks)
                 else if \<not> (timestamp < blockTimestamp e \<and> timestamp > blockTimestamp s) then
                   Some (Inl (AssertionError ''timestamp not in between start and end blocks''), blocks)
                 else
                   (let totalTimeDifference = blockTimestamp e - blockTimestamp s;
                        totalBlockDistance = number e - number s;
                        blockPercentile =
                          (of_int (timestamp - blockTimestamp s) :: rat) / of_int totalTimeDifference;
                        estimatedBlock = number s + js_round (blockPercentile * of_int totalBlockDistance);
                        r = getBlock requestBlock blocks (clamp estimatedBlock (number s + 1) (number e - 1))
                    in if blockTimestamp (fst r) < timestamp
                       then findBlock requestBlock (snd r) (Some (fst r)) endBlock timestamp
                       else findBlock requestBlock (snd r) startBlock (Some (fst r)) timestamp)))"

declare findBlock.simps [code]

text \<open>
  \<open>getBlockForTimestamp\<close>: fetch the head when the cache is empty or ends too early,
  search backwards when the cache starts too late, then narrow between the two cached
  neighbours of the timestamp. \<open>None\<close> is a run that does not return.
\<close>

definition getBlockForTimestamp ::
  "requestBlock \<Rightarrow> block list \<Rightarrow> int \<Rightarrow> ((error + block) \<times> block list) option" where
  "getBlockForTimestamp requestBlock blocks0 timestamp =
     (let headStep =
            (if blocks0 = [] \<or> blockTimestamp (last blocks0) < timestamp then
               (let r = getLatestBlock requestBlock blocks0
                in (if timestamp \<ge> blockTimestamp (fst r) then Some (fst r) else None, snd r))
             else (None, blocks0));
          blocks1 = snd headStep
      in case fst headStep of
           Some block \<Rightarrow> Some (Inr block, blocks1)
         | None \<Rightarrow>
             (case blocks1 of
                [] \<Rightarrow> Some (Inl TypeError, blocks1)
              | initialBlock # _ \<Rightarrow>
                  (case (if blockTimestamp initialBlock > timestamp then
                           searchBackwards requestBlock blocks1 timestamp initialBlock
                             (max (estimateBlocksElapsed (blockTimestamp initialBlock - timestamp) (11 / 10)) 1) 1
                         else Some (None, blocks1)) of
                     None \<Rightarrow> None
                   | Some (Some err, blocks2) \<Rightarrow> Some (Inl err, blocks2)
                   | Some (None, blocks2) \<Rightarrow>
                       (let index = int (sortedIndexBy blocks2 timestamp blockTimestamp)
                        in findBlock requestBlock blocks2 (nthOpt blocks2 (index - 1))
                             (nthOpt blocks2 index) timestamp))))"

text \<open>The cache invariant: strictly ascending block numbers, hence one entry per number.\<close>

definition cacheSorted :: "block list \<Rightarrow> bool" where
  "cacheSorted blocks = sorted_wrt (<) (map number blocks)"

text \<open>
  The chain behind \<open>requestBlock\<close>: blocks \<open>0\<close> to \<open>head\<close>, "latest" is block \<open>head\<close>, a
  request by number returns the block of that number, and timestamps strictly increase with
  the block number.
\<close>

definition chainOk :: "requestBlock \<Rightarrow> int \<Rightarrow> bool" where
  "chainOk requestBlock head =
     (0 \<le> head \<and> requestBlock Latest = requestBlock (BlockNumber head) \<and>
      (\<forall>n. number (requestBlock (BlockNumber n)) = n) \<and>
      (\<forall>m n. 0 \<le> m \<and> m < n \<and> n \<le> head \<longrightarrow>
         blockTimestamp (requestBlock (BlockNumber m)) < blockTimestamp (requestBlock (BlockNumber n))))"

text \<open>A cache made of chain blocks: sorted, and every entry is the chain's block of its number.\<close>

definition cacheOk :: "requestBlock \<Rightarrow> int \<Rightarrow> block list \<Rightarrow> bool" where
  "cacheOk requestBlock head blocks =
     (cacheSorted blocks \<and>
      (\<forall>b\<in>set blocks. 0 \<le> number b \<and> number b \<le> head \<and> requestBlock (BlockNumber (number b)) = b))"

text \<open>
  The cache states reachable by the locator's operations, from the empty cache the
  constructor starts with. \<open>getBlock\<close> is called with the number of a block of the
  chain.
\<close>

inductive reachable :: "requestBlock \<Rightarrow> int \<Rightarrow> block list \<Rightarrow> bool"
  for rb :: requestBlock and h :: int where
  initial: "reachable rb h []"
| by_getBlock:
    "reachable rb h blocks \<Longrightarrow> 0 \<le> n \<Longrightarrow> n \<le> h \<Longrightarrow> reachable rb h (snd (getBlock rb blocks n))"
| by_getLatestBlock:
    "reachable rb h blocks \<Longrightarrow> reachable rb h (snd (getLatestBlock rb blocks))"
| by_getBlockForTimestamp:
    "reachable rb h blocks \<Longrightarrow> getBlockForTimestamp rb blocks T = Some (r, blocks') \<Longrightarrow>
     reachable rb h blocks'"

text \<open>A chain for the examples: blocks 0 to 20, block \<open>n\<close> at time \<open>1000 + 13 * n\<close>.\<close>

definition demoChain :: requestBlock where
  "demoChain blockId =
     (case blockId of
        Latest \<Rightarrow> \<lparr>number = 20, blockTimestamp = 1260\<rparr>
      | BlockNumber n \<Rightarrow> \<lparr>number = n, blockTimestamp = 1000 + 13 * n\<rparr>)"

section \<open>The balance objects of the script\<close>

text \<open>
  The balance objects of the script. The fields are added stage by stage
  (\<open>blockNumber\<close> and \<open>rawBalance\<close> first, then \<open>tokenBalance\<close>, \<open>timestamp\<close>,
  \<open>price\<close> and \<open>value\<close>), the seed and the aggregate entries carry only some of them, so
  every field is optional. The field \<open>value\<close> is named \<open>itemValue\<close> here.
\<close>

record balanceItem =
  blockNumber :: "int option"
  rawBalance :: "int option"
  tokenBalance :: "rat option"
  timestamp :: "rat option"
  price :: "rat option"
  itemValue :: "rat option"

definition emptyItem :: balanceItem where
  "emptyItem = \<lparr>blockNumber = None, rawBalance = None, tokenBalance = None,
                timestamp = None, price = None, itemValue = None\<rparr>"

section \<open>Balance reconstruction (main, the loop over the sorted bridge transactions)\<close>

record transaction =
  token :: string
  netAmount :: int
  txBlockNumber :: int

definition rawItem :: "int \<Rightarrow> int \<Rightarrow> balanceItem" where
  "rawItem b r = emptyItem\<lparr>blockNumber := Some b, rawBalance := Some r\<rparr>"

text \<open>
  One iteration of \<open>sortedBridgeTransactions.forEach\<close>. Reading \<open>.rawBalance\<close> of the
  last entry throws a TypeError when the array is empty, and \<open>.add\<close> does when the
  field is absent.
\<close>

definition addTransaction ::
  "(string \<rightharpoonup> balanceItem list) \<Rightarrow> transaction \<Rightarrow> error + (string \<rightharpoonup> balanceItem list)" where
  "addTransaction balances t =
     (case balances (token t) of
        Some items \<Rightarrow>
          (case lastItem items of
             None \<Rightarrow> Inl TypeError
           | Some l \<Rightarrow>
               (case rawBalance l of
                  None \<Rightarrow> Inl TypeError
                | Some r \<Rightarrow>
                    Inr (balances(token t \<mapsto> items @ [rawItem (txBlockNumber t) (r + netAmount t)]))))
      | None \<Rightarrow> Inr (balances(token t \<mapsto> [rawItem (txBlockNumber t) (netAmount t)])))"

fun calcBalancesFrom ::
  "(string \<rightharpoonup> balanceItem list) \<Rightarrow> transaction list \<Rightarrow> error + (string \<rightharpoonup> balanceItem list)" where
  "calcBalancesFrom balances [] = Inr balances"
| "calcBalancesFrom balances (t # ts) =
     (case addTransaction balances t of
        Inl e \<Rightarrow> Inl e
      | Inr balances' \<Rightarrow> calcBalancesFrom balances' ts)"

definition calcBalances :: "transaction list \<Rightarrow> error + (string \<rightharpoonup> balanceItem list)" where
  "calcBalances txs = calcBalancesFrom Map.empty txs"

text \<open>The signed amounts of one asset, in processing order.\<close>

definition netsOf :: "string \<Rightarrow> transaction list \<Rightarrow> int list" where
  "netsOf a txs = map netAmount (filter (\<lambda>t. token t = a) txs)"

text \<open>What the claims say about the reconstruction: the raw balances of an asset are the
  running sums of its signed amounts.\<close>

definition rawsOf :: "(string \<rightharpoonup> balanceItem list) \<Rightarrow> string \<Rightarrow> int option list" where
  "rawsOf m a = (case m a of None \<Rightarrow> [] | Some items \<Rightarrow> map rawBalance items)"

definition runningSums :: "int list \<Rightarrow> int list" where
  "runningSums ns = map (\<lambda>k. sum_list (take (Suc k) ns)) [0..<length ns]"

definition balancesOk :: "(string \<rightharpoonup> balanceItem list) \<Rightarrow> transaction list \<Rightarrow> bool" where
  "balancesOk m pre = (\<forall>a. (m a = None) = (netsOf a pre = []) \<and> rawsOf m a = map Some (runningSums (netsOf a pre)))"

definition tx :: "string \<Rightarrow> int \<Rightarrow> int \<Rightarrow> transaction" where
  "tx a n b = \<lparr>token = a, netAmount = n, txBlockNumber = b\<rparr>"


section \<open>Price lookup, seed rule and TWAP (the helper functions of the script)\<close>

text \<open>A comparison with \<open>undefined\<close> (or \<open>NaN\<close>) on either side is false.\<close>

definition js_gt :: "rat option \<Rightarrow> rat option \<Rightarrow> bool" where
  "js_gt a b = (case a of None \<Rightarrow> False | Some x \<Rightarrow> (case b of None \<Rightarrow> False | Some y \<Rightarrow> x > y))"

definition js_ge :: "rat option \<Rightarrow> rat option \<Rightarrow> bool" where
  "js_ge a b = (case a of None \<Rightarrow> False | Some x \<Rightarrow> (case b of None \<Rightarrow> False | Some y \<Rightarrow> x \<ge> y))"

definition js_lt :: "rat option \<Rightarrow> rat option \<Rightarrow> bool" where
  "js_lt a b = (case a of None \<Rightarrow> False | Some x \<Rightarrow> (case b of None \<Rightarrow> False | Some y \<Rightarrow> x < y))"



text \<open>
  \<open>addFirstBalance\<close>, returning the array it mutates. Spreading \<open>undefined\<close> (the last
  element of an empty array) adds no field.
\<close>

definition zeroSeed :: "rat \<Rightarrow> balanceItem" where
  "zeroSeed startTimestamp =
     emptyItem\<lparr>tokenBalance := Some 0, itemValue := Some 0, timestamp := Some startTimestamp\<rparr>"

definition addFirstBalance :: "balanceItem list \<Rightarrow> rat \<Rightarrow> balanceItem list" where
  "addFirstBalance tokenBalances startTimestamp =
     (let firstBalanceIndex =
            findIndex (\<lambda>balanceItem. js_gt (timestamp balanceItem) (Some startTimestamp)) tokenBalances
      in if firstBalanceIndex = -1 then
           tokenBalances @
             [(case lastItem tokenBalances of None \<Rightarrow> emptyItem | Some l \<Rightarrow> l)
                \<lparr>timestamp := Some startTimestamp\<rparr>]
         else if firstBalanceIndex = 0 then
           splice 0 (zeroSeed startTimestamp) tokenBalances
         else
           splice (nat firstBalanceIndex)
             ((tokenBalances ! nat (firstBalanceIndex - 1))\<lparr>timestamp := Some startTimestamp\<rparr>)
             tokenBalances)"

text \<open>
  \<open>calculateTwap\<close>. The filter keeps an entry when its timestamp is truthy (present and
  not 0) and lies in the window; the \<open>forEach\<close> weights each kept entry by the time to the
  next kept entry, the last one by the time to the end.
\<close>

definition selected :: "rat \<Rightarrow> rat \<Rightarrow> balanceItem \<Rightarrow> bool" where
  "selected startTimestamp endTimestamp balanceItem =
     (case timestamp balanceItem of
        None \<Rightarrow> False
      | Some t \<Rightarrow> t \<noteq> 0 \<and> t \<ge> startTimestamp \<and> t < endTimestamp)"

fun cumValueLoop :: "balanceItem list \<Rightarrow> rat \<Rightarrow> rat option \<Rightarrow> rat option" where
  "cumValueLoop [] endTimestamp cumValue = cumValue"
| "cumValueLoop [b] endTimestamp cumValue =
     js_add cumValue (js_mul (itemValue b) (js_sub (Some endTimestamp) (timestamp b)))"
| "cumValueLoop (b # n # rest) endTimestamp cumValue =
     cumValueLoop (n # rest) endTimestamp
       (js_add cumValue (js_mul (itemValue b) (js_sub (timestamp n) (timestamp b))))"

definition calculateTwap :: "balanceItem list \<Rightarrow> rat \<Rightarrow> rat \<Rightarrow> rat option" where
  "calculateTwap tokenBalances startTimestamp endTimestamp =
     js_div
       (cumValueLoop (filter (selected startTimestamp endTimestamp) tokenBalances) endTimestamp (Some 0))
       (js_sub (Some endTimestamp) (Some startTimestamp))"


definition js_sum :: "rat option list \<Rightarrow> rat option" where
  "js_sum xs = foldr js_add xs (Some 0)"


text \<open>A sample whose timestamp lies in the window, whether or not it is truthy.\<close>

definition inWindow :: "rat \<Rightarrow> rat \<Rightarrow> balanceItem \<Rightarrow> bool" where
  "inWindow startTimestamp endTimestamp balanceItem =
     (case timestamp balanceItem of
        None \<Rightarrow> False
      | Some t \<Rightarrow> startTimestamp \<le> t \<and> t < endTimestamp)"

text \<open>A sample with the two fields the aggregate series and the TWAP read.\<close>

definition sample :: "rat \<Rightarrow> rat \<Rightarrow> balanceItem" where
  "sample t v = emptyItem\<lparr>timestamp := Some t, itemValue := Some v\<rparr>"



section \<open>The rate-limited event fetcher\<close>

record bridgeEvent =
  evBlockNumber :: int
  amount :: int

text \<open>
  Modelled from the spec: the chain node's \<open>getPastEvents(eventName, fromBlock, toBlock)\<close>,
  which is not part of the repository. A request either fails (\<open>None\<close>, the rejected
  promise) or returns the events of the log whose block lies in the inclusive range. The
  fault pattern \<open>fails\<close> decides from the requested range.
\<close>

definition getPastEvents ::
  "(int \<Rightarrow> int \<Rightarrow> bool) \<Rightarrow> bridgeEvent list \<Rightarrow> int \<Rightarrow> int \<Rightarrow> bridgeEvent list option" where
  "getPastEvents fails eventLog fromBlock toBlock =
     (if fails fromBlock toBlock then None
      else Some (filter (\<lambda>ev. fromBlock \<le> evBlockNumber ev \<and> evBlockNumber ev \<le> toBlock) eventLog))"

text \<open>
  The \<open>while (true)\<close> loop of \<open>getRateLimitedEvents\<close>; it does not return when a request
  keeps failing at range 1. \<open>parseInt(blockRange / 2)\<close> is the integer quotient.
\<close>

partial_function (option) rateLimitedLoop ::
  "(int \<Rightarrow> int \<Rightarrow> bool) \<Rightarrow> bridgeEvent list \<Rightarrow> int \<Rightarrow> bridgeEvent list \<Rightarrow> int \<Rightarrow> int
     \<Rightarrow> bridgeEvent list option" where
  "rateLimitedLoop fails eventLog toBlock events lastBlock blockRange =
     (case getPastEvents fails eventLog (lastBlock + 1) (min (lastBlock + blockRange) toBlock) of
        None \<Rightarrow> rateLimitedLoop fails eventLog toBlock events lastBlock (max (blockRange div 2) 1)
      | Some evs \<Rightarrow>
          if lastBlock + 1 + blockRange < toBlock
          then rateLimitedLoop fails eventLog toBlock (events @ evs) (lastBlock + blockRange) (blockRange * 2)
          else Some (events @ evs))"

declare rateLimitedLoop.simps [code]

definition getRateLimitedEvents ::
  "(int \<Rightarrow> int \<Rightarrow> bool) \<Rightarrow> bridgeEvent list \<Rightarrow> int \<Rightarrow> int \<Rightarrow> bridgeEvent list option" where
  "getRateLimitedEvents fails eventLog fromBlock toBlock =
     rateLimitedLoop fails eventLog toBlock [] (fromBlock - 1) (toBlock - (fromBlock - 1))"

text \<open>The fault pattern of the specification's test: a request for more than \<open>n\<close> blocks fails.\<close>

definition failsAbove :: "int \<Rightarrow> int \<Rightarrow> int \<Rightarrow> bool" where
  "failsAbove n fromBlock toBlock = (n < toBlock - fromBlock + 1)"

text \<open>A log with one event in each block of a range.\<close>

definition eventAt :: "int \<Rightarrow> bridgeEvent" where
  "eventAt b = \<lparr>evBlockNumber = b, amount = 1\<rparr>"


section \<open>The aggregate series (main, "Aggregate TVL and update it whenever value of any asset changes")\<close>

text \<open>
  An entry of \<open>combinedBalances\<close>, with \<open>timestamp\<close> and \<open>value\<close> named
  \<open>combinedTimestamp\<close> and \<open>combinedValue\<close>. Only entries with a truthy timestamp are
  pushed, so the timestamp is a number.
\<close>

record combinedItem =
  tokenAddress :: string
  combinedTimestamp :: rat
  combinedValue :: "rat option"
  previousValue :: "rat option"

text \<open>
  The \<open>previousValue\<close> of the entry at \<open>balanceIndex\<close>: the value of the entry before it
  when there is one (\<open>balanceIndex > 0\<close>) and its timestamp is at least \<open>fromTimestamp\<close>,
  and 0 otherwise.
\<close>

definition previousValueOf :: "rat \<Rightarrow> balanceItem option \<Rightarrow> rat option" where
  "previousValueOf fromTimestamp previous =
     (case previous of
        None \<Rightarrow> Some 0
      | Some p \<Rightarrow> if js_ge (timestamp p) (Some fromTimestamp) then itemValue p else Some 0)"

text \<open>
  The \<open>forEach\<close> over the entries of one token; \<open>previous\<close> is the entry before the
  current one. An entry is skipped when its timestamp is falsy or before \<open>fromTimestamp\<close>.
\<close>

fun collectToken :: "string \<Rightarrow> rat \<Rightarrow> balanceItem option \<Rightarrow> balanceItem list \<Rightarrow> combinedItem list" where
  "collectToken a fromTimestamp previous [] = []"
| "collectToken a fromTimestamp previous (balanceItem # rest) =
     (case timestamp balanceItem of
        None \<Rightarrow> []
      | Some t \<Rightarrow>
          if t = 0 \<or> t < fromTimestamp then []
          else [\<lparr>tokenAddress = a, combinedTimestamp = t, combinedValue = itemValue balanceItem,
                 previousValue = previousValueOf fromTimestamp previous\<rparr>])
     @ collectToken a fromTimestamp (Some balanceItem) rest"

text \<open>
  \<open>balances\<close> is an object keyed by token address, iterated in insertion order: a list of
  pairs of a token address and its entries.
\<close>

definition combinedBalances :: "(string \<times> balanceItem list) list \<Rightarrow> rat \<Rightarrow> combinedItem list" where
  "combinedBalances balances fromTimestamp =
     concat (map (\<lambda>(a, items). collectToken a fromTimestamp None items) balances)"

definition totalItem :: "rat \<Rightarrow> rat option \<Rightarrow> balanceItem" where
  "totalItem t v = emptyItem\<lparr>timestamp := Some t, itemValue := v\<rparr>"

text \<open>
  One iteration of \<open>sortedBalances.forEach\<close> on \<open>balances["Total"]\<close>: the first entry
  copies the value; a later timestamp pushes the last total plus the value minus the
  previous value; otherwise the last total is updated in place.
\<close>

definition totalStep :: "balanceItem list \<Rightarrow> combinedItem \<Rightarrow> balanceItem list" where
  "totalStep totals c =
     (case lastItem totals of
        None \<Rightarrow> [totalItem (combinedTimestamp c) (combinedValue c)]
      | Some l \<Rightarrow>
          if js_lt (timestamp l) (Some (combinedTimestamp c)) then
            totals @ [totalItem (combinedTimestamp c)
                       (js_sub (js_add (itemValue l) (combinedValue c)) (previousValue c))]
          else
            butlast totals @
              [l\<lparr>itemValue := js_add (itemValue l) (js_sub (combinedValue c) (previousValue c))\<rparr>])"

text \<open>\<open>lodash.sortBy\<close> is a stable sort, as \<open>sort_key\<close> is.\<close>

definition totalSeries :: "(string \<times> balanceItem list) list \<Rightarrow> rat \<Rightarrow> balanceItem list" where
  "totalSeries balances fromTimestamp =
     foldl totalStep [] (sort_key combinedTimestamp (combinedBalances balances fromTimestamp))"

text \<open>
  The naive reference, as the specification words it: at a timestamp \<open>T\<close>, the sum over
  the assets of the latest value of the asset seen so far, an asset not seen yet counting
  as 0. An asset is seen through its entries in the range (timestamp present, not 0, at
  least \<open>fromTimestamp\<close>) that are not after \<open>T\<close>.
\<close>

definition seenBy :: "rat \<Rightarrow> rat \<Rightarrow> balanceItem \<Rightarrow> bool" where
  "seenBy fromTimestamp T balanceItem =
     (case timestamp balanceItem of
        None \<Rightarrow> False
      | Some t \<Rightarrow> t \<noteq> 0 \<and> fromTimestamp \<le> t \<and> t \<le> T)"

definition latestValueAt :: "rat \<Rightarrow> rat \<Rightarrow> balanceItem list \<Rightarrow> rat option" where
  "latestValueAt fromTimestamp T items =
     (case lastItem (filter (seenBy fromTimestamp T) items) of
        None \<Rightarrow> Some 0
      | Some b \<Rightarrow> itemValue b)"

definition naiveTotalAt :: "(string \<times> balanceItem list) list \<Rightarrow> rat \<Rightarrow> rat \<Rightarrow> rat option" where
  "naiveTotalAt balances fromTimestamp T =
     js_sum (map (\<lambda>(a, items). latestValueAt fromTimestamp T items) balances)"

text \<open>The timestamps the aggregate series emits: the distinct timestamps in ascending order.\<close>

definition emittedTimestamps :: "(string \<times> balanceItem list) list \<Rightarrow> rat \<Rightarrow> rat list" where
  "emittedTimestamps balances fromTimestamp =
     remdups_adj (map combinedTimestamp (sort_key combinedTimestamp (combinedBalances balances fromTimestamp)))"

text \<open>Two assets for the examples.\<close>

definition demoBalances :: "(string \<times> balanceItem list) list" where
  "demoBalances =
     [(''ETH'', [emptyItem\<lparr>itemValue := Some 50\<rparr>, sample 100 60, sample 120 90, sample 120 80]),
      (''DAI'', [sample 90 7, sample 110 5, sample 120 6, sample 130 4])]"

text \<open>
  For the comparison of the two: the change an entry brings, the sum of the changes up to
  a timestamp, the totals the walk produces from its current last entry, and the latest
  value of a series with a default.
\<close>

definition deltaOf :: "combinedItem \<Rightarrow> rat" where
  "deltaOf c = the (combinedValue c) - the (previousValue c)"

definition deltaSum :: "rat \<Rightarrow> combinedItem list \<Rightarrow> rat" where
  "deltaSum T cs = sum_list (map deltaOf (filter (\<lambda>c. combinedTimestamp c \<le> T) cs))"

fun groupTotals :: "rat \<Rightarrow> rat \<Rightarrow> combinedItem list \<Rightarrow> balanceItem list" where
  "groupTotals t s [] = [totalItem t (Some s)]"
| "groupTotals t s (c # cs) =
     (if t < combinedTimestamp c
      then totalItem t (Some s) # groupTotals (combinedTimestamp c) (s + deltaOf c) cs
      else groupTotals t (s + deltaOf c) cs)"

definition latestOr :: "rat option \<Rightarrow> rat \<Rightarrow> rat \<Rightarrow> balanceItem list \<Rightarrow> rat option" where
  "latestOr d fromTimestamp T items =
     (case lastItem (filter (seenBy fromTimestamp T) items) of
        None \<Rightarrow> d
      | Some b \<Rightarrow> itemValue b)"

text \<open>
  Every entry with a previous value other than 0 comes after an entry (or a timestamp of
  \<open>S\<close>) that is not later than it.
\<close>

fun dominated :: "rat set \<Rightarrow> combinedItem list \<Rightarrow> bool" where
  "dominated S [] = True"
| "dominated S (c # cs) =
     ((previousValue c = Some 0 \<or> (\<exists>t\<in>S. t \<le> combinedTimestamp c)) \<and>
      dominated (insert (combinedTimestamp c) S) cs)"



section \<open>Double arithmetic\<close>

text \<open>
  The numbers of the script are IEEE 754 doubles, and each of its arithmetic operations
  returns the exact result rounded to a double. Where a claim depends on the rounding, the
  operations take the rounding as a parameter: \<open>rnd\<close> maps the exact result of an
  operation to the double the operation returns, and to \<open>None\<close> when the result
  overflows to an infinity. The exact operations \<open>js_add\<close>, \<open>js_sub\<close>, \<open>js_mul\<close> and
  \<open>js_div\<close> are the instance \<open>rnd = Some\<close>.
\<close>

definition fl :: "(rat \<Rightarrow> rat option) \<Rightarrow> rat option \<Rightarrow> rat option" where
  "fl rnd x = (case x of None \<Rightarrow> None | Some r \<Rightarrow> rnd r)"

definition fl_add :: "(rat \<Rightarrow> rat option) \<Rightarrow> rat option \<Rightarrow> rat option \<Rightarrow> rat option" where
  "fl_add rnd a b = fl rnd (js_add a b)"

definition fl_sub :: "(rat \<Rightarrow> rat option) \<Rightarrow> rat option \<Rightarrow> rat option \<Rightarrow> rat option" where
  "fl_sub rnd a b = fl rnd (js_sub a b)"

definition fl_mul :: "(rat \<Rightarrow> rat option) \<Rightarrow> rat option \<Rightarrow> rat option \<Rightarrow> rat option" where
  "fl_mul rnd a b = fl rnd (js_mul a b)"

definition fl_div :: "(rat \<Rightarrow> rat option) \<Rightarrow> rat option \<Rightarrow> rat option \<Rightarrow> rat option" where
  "fl_div rnd a b = fl rnd (js_div a b)"

text \<open>
  The rounding of doubles, \<open>rnd53\<close>: to the nearest number with a significand of 53 bits,
  a tie going to the even significand. With \<open>2 ^ E \<le> \<bar>x\<bar> < 2 ^ (E + 1)\<close> the last place of
  the significand has the exponent \<open>E - 52\<close>, and never less than -1074 (gradual
  underflow); a rounded result of \<open>2 ^ 1024\<close> or more overflows. \<open>roundHalfEven\<close> rounds
  to the nearest integer, a tie going to the even one; \<open>pow2 e\<close> is \<open>2 ^ e\<close> for an integer
  \<open>e\<close>; \<open>bitlen n\<close> is the number of binary digits of \<open>n\<close>, so that the quotient of the
  numerator \<open>p\<close> and the denominator \<open>q\<close> lies between \<open>2 ^ (k - 1)\<close> and \<open>2 ^ (k + 1)\<close>
  for \<open>k = bitlen \<bar>p\<bar> - bitlen q\<close>.
\<close>

definition roundHalfEven :: "rat \<Rightarrow> int" where
  "roundHalfEven x =
     (let f = \<lfloor>x\<rfloor>; r = x - of_int f
      in if r < 1 / 2 then f else if 1 / 2 < r then f + 1 else if even f then f else f + 1)"

definition pow2 :: "int \<Rightarrow> rat" where
  "pow2 e = (if 0 \<le> e then of_int (2 ^ nat e) else 1 / of_int (2 ^ nat (- e)))"

definition rnd53 :: "rat \<Rightarrow> rat option" where
  "rnd53 x =
     (let (p, q) = quotient_of x;
          k = bitlen \<bar>p\<bar> - bitlen q;
          e = max (- 1074) ((if pow2 k \<le> \<bar>x\<bar> then k else k - 1) - 52);
          m = roundHalfEven (\<bar>x\<bar> / pow2 e)
      in if 971 < e \<or> (e = 971 \<and> m = 2 ^ 53) then None
         else Some (sgn x * of_int m * pow2 e))"

text \<open>
  A list of exact results that the rounding leaves as they are (\<open>NaN\<close> stays \<open>NaN\<close>): no
  operation that produced them rounded.
\<close>

definition unrounded :: "(rat \<Rightarrow> rat option) \<Rightarrow> rat option list \<Rightarrow> bool" where
  "unrounded rnd xs = list_all (\<lambda>x. fl rnd x = x) xs"

text \<open>
  \<open>calculateTwap\<close> in double arithmetic: the loop and the function above, every
  subtraction, multiplication, addition and division rounded.
\<close>

fun cumValueLoopFl :: "(rat \<Rightarrow> rat option) \<Rightarrow> balanceItem list \<Rightarrow> rat \<Rightarrow> rat option \<Rightarrow> rat option" where
  "cumValueLoopFl rnd [] endTimestamp cumValue = cumValue"
| "cumValueLoopFl rnd [b] endTimestamp cumValue =
     fl_add rnd cumValue (fl_mul rnd (itemValue b) (fl_sub rnd (Some endTimestamp) (timestamp b)))"
| "cumValueLoopFl rnd (b # n # rest) endTimestamp cumValue =
     cumValueLoopFl rnd (n # rest) endTimestamp
       (fl_add rnd cumValue (fl_mul rnd (itemValue b) (fl_sub rnd (timestamp n) (timestamp b))))"

definition calculateTwapFl :: "(rat \<Rightarrow> rat option) \<Rightarrow> balanceItem list \<Rightarrow> rat \<Rightarrow> rat \<Rightarrow> rat option" where
  "calculateTwapFl rnd tokenBalances startTimestamp endTimestamp =
     fl_div rnd
       (cumValueLoopFl rnd (filter (selected startTimestamp endTimestamp) tokenBalances) endTimestamp (Some 0))
       (fl_sub rnd (Some endTimestamp) (Some startTimestamp))"

text \<open>
  The exact results of the operations of \<open>calculateTwap\<close>, in the order the code performs
  them: for each selected sample the time period, the weighted value and the new
  \<open>cumValue\<close>; then the length of the window and the quotient.
\<close>

fun cumValueTrace :: "balanceItem list \<Rightarrow> rat \<Rightarrow> rat option \<Rightarrow> rat option list" where
  "cumValueTrace [] endTimestamp cumValue = []"
| "cumValueTrace [b] endTimestamp cumValue =
     (let timePeriod = js_sub (Some endTimestamp) (timestamp b);
          weighted = js_mul (itemValue b) timePeriod
      in [timePeriod, weighted, js_add cumValue weighted])"
| "cumValueTrace (b # n # rest) endTimestamp cumValue =
     (let timePeriod = js_sub (timestamp n) (timestamp b);
          weighted = js_mul (itemValue b) timePeriod
      in [timePeriod, weighted, js_add cumValue weighted] @
         cumValueTrace (n # rest) endTimestamp (js_add cumValue weighted))"

definition twapTrace :: "balanceItem list \<Rightarrow> rat \<Rightarrow> rat \<Rightarrow> rat option list" where
  "twapTrace tokenBalances startTimestamp endTimestamp =
     cumValueTrace (filter (selected startTimestamp endTimestamp) tokenBalances) endTimestamp (Some 0) @
     [js_sub (Some endTimestamp) (Some startTimestamp),
      calculateTwap tokenBalances startTimestamp endTimestamp]"

text \<open>
  The aggregate series in double arithmetic: \<open>totalStep\<close> and \<open>totalSeries\<close> above with
  the additions and subtractions rounded. \<open>a + b - c\<close> is \<open>(a + b) - c\<close>, and
  \<open>x += b - c\<close> is \<open>x + (b - c)\<close>.
\<close>

definition totalStepFl :: "(rat \<Rightarrow> rat option) \<Rightarrow> balanceItem list \<Rightarrow> combinedItem \<Rightarrow> balanceItem list" where
  "totalStepFl rnd totals c =
     (case lastItem totals of
        None \<Rightarrow> [totalItem (combinedTimestamp c) (combinedValue c)]
      | Some l \<Rightarrow>
          if js_lt (timestamp l) (Some (combinedTimestamp c)) then
            totals @ [totalItem (combinedTimestamp c)
                       (fl_sub rnd (fl_add rnd (itemValue l) (combinedValue c)) (previousValue c))]
          else
            butlast totals @
              [l\<lparr>itemValue := fl_add rnd (itemValue l) (fl_sub rnd (combinedValue c) (previousValue c))\<rparr>])"

definition totalSeriesFl ::
  "(rat \<Rightarrow> rat option) \<Rightarrow> (string \<times> balanceItem list) list \<Rightarrow> rat \<Rightarrow> balanceItem list" where
  "totalSeriesFl rnd balances fromTimestamp =
     foldl (totalStepFl rnd) [] (sort_key combinedTimestamp (combinedBalances balances fromTimestamp))"

text \<open>The exact results of the operations of the walk, in the order the code performs them.\<close>

definition totalStepTrace :: "balanceItem list \<Rightarrow> combinedItem \<Rightarrow> rat option list" where
  "totalStepTrace totals c =
     (case lastItem totals of
        None \<Rightarrow> []
      | Some l \<Rightarrow>
          if js_lt (timestamp l) (Some (combinedTimestamp c)) then
            [js_add (itemValue l) (combinedValue c),
             js_sub (js_add (itemValue l) (combinedValue c)) (previousValue c)]
          else
            [js_sub (combinedValue c) (previousValue c),
             js_add (itemValue l) (js_sub (combinedValue c) (previousValue c))])"

fun totalTrace :: "balanceItem list \<Rightarrow> combinedItem list \<Rightarrow> rat option list" where
  "totalTrace totals [] = []"
| "totalTrace totals (c # cs) = totalStepTrace totals c @ totalTrace (totalStep totals c) cs"

definition totalSeriesTrace :: "(string \<times> balanceItem list) list \<Rightarrow> rat \<Rightarrow> rat option list" where
  "totalSeriesTrace balances fromTimestamp =
     totalTrace [] (sort_key combinedTimestamp (combinedBalances balances fromTimestamp))"

text \<open>
  The naive reference in double arithmetic: the same sum as \<open>naiveTotalAt\<close>, every addition
  rounded; and the exact results of its additions.
\<close>

definition fl_sum :: "(rat \<Rightarrow> rat option) \<Rightarrow> rat option list \<Rightarrow> rat option" where
  "fl_sum rnd xs = foldr (fl_add rnd) xs (Some 0)"

definition naiveTotalAtFl ::
  "(rat \<Rightarrow> rat option) \<Rightarrow> (string \<times> balanceItem list) list \<Rightarrow> rat \<Rightarrow> rat \<Rightarrow> rat option" where
  "naiveTotalAtFl rnd balances fromTimestamp T =
     fl_sum rnd (map (\<lambda>(a, items). latestValueAt fromTimestamp T items) balances)"

fun sumTrace :: "rat option list \<Rightarrow> rat option list" where
  "sumTrace [] = []"
| "sumTrace (x # xs) = js_add x (js_sum xs) # sumTrace xs"

definition naiveTrace :: "(string \<times> balanceItem list) list \<Rightarrow> rat \<Rightarrow> rat \<Rightarrow> rat option list" where
  "naiveTrace balances fromTimestamp T =
     sumTrace (map (\<lambda>(a, items). latestValueAt fromTimestamp T items) balances)"

text \<open>
  For a condition on the input under which no operation of the aggregation rounds: the
  sum of the magnitudes of the values of a series, of all series, and of the values and
  previous values of a list of collected entries.
\<close>

definition valueMass :: "balanceItem list \<Rightarrow> rat" where
  "valueMass items = sum_list (map (\<lambda>b. \<bar>the (itemValue b)\<bar>) items)"

definition totalMass :: "(string \<times> balanceItem list) list \<Rightarrow> rat" where
  "totalMass balances = sum_list (map (\<lambda>(a, items). valueMass items) balances)"

definition deltaMass :: "combinedItem list \<Rightarrow> rat" where
  "deltaMass cs = sum_list (map (\<lambda>c. \<bar>the (combinedValue c)\<bar> + \<bar>the (previousValue c)\<bar>) cs)"

text \<open>
  For the examples: the double that the literal \<open>0.1\<close> denotes, and two assets of which
  one is worth \<open>1e17\<close> and then 0, the other 1.
\<close>

definition tenth :: rat where
  "tenth = 3602879701896397 / 36028797018963968"

definition absorbingBalances :: "(string \<times> balanceItem list) list" where
  "absorbingBalances = [(''A'', [sample 1 (10 ^ 17), sample 3 0]), (''B'', [sample 2 1])]"

section \<open>Theorems: balance reconstruction\<close>

lemma balancesOkD:
  "balancesOk m pre \<Longrightarrow> (m a = None) = (netsOf a pre = [])"
  "balancesOk m pre \<Longrightarrow> m a = Some items \<Longrightarrow> map rawBalance items = map Some (runningSums (netsOf a pre))"
  by (auto simp: balancesOk_def rawsOf_def split: option.splits)

lemma runningSums_snoc: "runningSums (ns @ [n]) = runningSums ns @ [sum_list ns + n]"
  by (simp add: runningSums_def)

lemma lastItem_snoc [simp]: "lastItem (xs @ [x]) = Some x"
  by (simp add: lastItem_def)

lemma lastItem_Nil [simp]: "lastItem [] = None"
  by (simp add: lastItem_def)

lemma lastItem_eq_last: "xs \<noteq> [] \<Longrightarrow> lastItem xs = Some (last xs)"
  by (cases xs rule: rev_cases) simp_all

lemma netsOf_snoc: "netsOf a (pre @ [t]) = (if token t = a then netsOf a pre @ [netAmount t] else netsOf a pre)"
  by (simp add: netsOf_def)

lemma last_runningSums: "ns \<noteq> [] \<Longrightarrow> last (runningSums ns) = sum_list ns"
  by (cases ns rule: rev_cases) (simp_all add: runningSums_snoc)

lemma addTransaction_ok:
  assumes "balancesOk m pre"
  shows "\<exists>m'. addTransaction m t = Inr m' \<and> balancesOk m' (pre @ [t])"
proof (cases "m (token t)")
  case None
  with assms have e: "netsOf (token t) pre = []" by (simp add: balancesOk_def)
  have "addTransaction m t = Inr (m(token t \<mapsto> [rawItem (txBlockNumber t) (netAmount t)]))"
    using None by (simp add: addTransaction_def)
  moreover have "balancesOk (m(token t \<mapsto> [rawItem (txBlockNumber t) (netAmount t)])) (pre @ [t])"
    using assms e unfolding balancesOk_def
    by (auto simp: netsOf_snoc rawsOf_def runningSums_def rawItem_def emptyItem_def)
  ultimately show ?thesis by blast
next
  case (Some items)
  with assms have ne: "netsOf (token t) pre \<noteq> []"
    and raws: "map rawBalance items = map Some (runningSums (netsOf (token t) pre))"
    using balancesOkD[of m pre "token t"] by auto
  from raws have len: "length items = length (netsOf (token t) pre)"
    using length_map[of rawBalance items] by (simp add: runningSums_def)
  with ne have ine: "items \<noteq> []" by auto
  then have li: "lastItem items = Some (last items)" by (rule lastItem_eq_last)
  have "rawBalance (last items) = last (map rawBalance items)"
    using ine by (simp add: last_map)
  also have "\<dots> = Some (last (runningSums (netsOf (token t) pre)))"
    using raws ne by (simp add: last_map runningSums_def)
  finally have rb: "rawBalance (last items) = Some (sum_list (netsOf (token t) pre))"
    using ne by (simp add: last_runningSums)
  let ?m' = "m(token t \<mapsto> items @ [rawItem (txBlockNumber t) (sum_list (netsOf (token t) pre) + netAmount t)])"
  have "addTransaction m t = Inr ?m'"
    using Some li rb by (simp add: addTransaction_def)
  moreover have "balancesOk ?m' (pre @ [t])"
    using assms raws unfolding balancesOk_def
    by (auto simp: netsOf_snoc rawsOf_def runningSums_snoc rawItem_def emptyItem_def)
  ultimately show ?thesis by blast
qed

lemma calcBalancesFrom_ok:
  "balancesOk m pre \<Longrightarrow> \<exists>m'. calcBalancesFrom m txs = Inr m' \<and> balancesOk m' (pre @ txs)"
proof (induction txs arbitrary: m pre)
  case Nil
  then show ?case by simp
next
  case (Cons t txs)
  from addTransaction_ok[OF Cons.prems, of t] obtain m1
    where a: "addTransaction m t = Inr m1" and ok: "balancesOk m1 (pre @ [t])" by blast
  from Cons.IH[OF ok] a show ?case by simp
qed

lemma sum_list_netsOf:
  "sum_list (netsOf a txs) = (\<Sum>t\<in>#filter_mset (\<lambda>t. token t = a) (mset txs). netAmount t)"
  by (induction txs) (simp_all add: netsOf_def)

text \<open>
  Claim C9. For every asset and every sequence of bridge transactions, the reconstruction
  never throws, the asset has an entry exactly when it has a transaction, the
  \<open>rawBalance\<close> of its k-th sample is the sum of its first k signed amounts, and the last
  sample's \<open>rawBalance\<close> is the sum of all its signed amounts (a sum over the multiset of
  the transactions, so independent of their order).
\<close>

theorem calcBalances_running_sum:
  "\<exists>balances. calcBalances txs = Inr balances \<and>
     (\<forall>a. (balances a = None) = (netsOf a txs = []) \<and>
        (\<forall>items. balances a = Some items \<longrightarrow>
           length items = length (netsOf a txs) \<and>
           (\<forall>k<length items. rawBalance (items ! k) = Some (sum_list (take (Suc k) (netsOf a txs)))) \<and>
           map_option rawBalance (lastItem items) =
             Some (Some (\<Sum>t\<in>#filter_mset (\<lambda>t. token t = a) (mset txs). netAmount t))))"
proof -
  have "balancesOk Map.empty []" by (simp add: balancesOk_def rawsOf_def runningSums_def netsOf_def)
  from calcBalancesFrom_ok[OF this, of txs] obtain m
    where m: "calcBalances txs = Inr m" and ok: "balancesOk m txs"
    by (auto simp: calcBalances_def)
  have "(m a = None) = (netsOf a txs = []) \<and>
        (\<forall>items. m a = Some items \<longrightarrow>
           length items = length (netsOf a txs) \<and>
           (\<forall>k<length items. rawBalance (items ! k) = Some (sum_list (take (Suc k) (netsOf a txs)))) \<and>
           map_option rawBalance (lastItem items) =
             Some (Some (\<Sum>t\<in>#filter_mset (\<lambda>t. token t = a) (mset txs). netAmount t)))" for a
  proof -
    have 1: "(m a = None) = (netsOf a txs = [])" using ok by (simp add: balancesOk_def)
    have 2: "length items = length (netsOf a txs) \<and>
           (\<forall>k<length items. rawBalance (items ! k) = Some (sum_list (take (Suc k) (netsOf a txs)))) \<and>
           map_option rawBalance (lastItem items) =
             Some (Some (\<Sum>t\<in>#filter_mset (\<lambda>t. token t = a) (mset txs). netAmount t))"
      if s: "m a = Some items" for items
    proof -
      from s ok have raws: "map rawBalance items = map Some (runningSums (netsOf a txs))"
        and ne: "netsOf a txs \<noteq> []"
        using balancesOkD[of m txs a] by auto
      from raws have len: "length items = length (netsOf a txs)"
        using length_map[of rawBalance items] by (simp add: runningSums_def)
      have nth: "rawBalance (items ! k) = Some (sum_list (take (Suc k) (netsOf a txs)))"
        if k: "k < length items" for k
      proof -
        from k have "rawBalance (items ! k) = map rawBalance items ! k" by simp
        also have "\<dots> = Some (sum_list (take (Suc k) (netsOf a txs)))"
          using k len unfolding raws by (simp add: runningSums_def)
        finally show ?thesis .
      qed
      from len ne have ine: "items \<noteq> []" by auto
      have "rawBalance (last items) = last (map rawBalance items)" using ine by (simp add: last_map)
      also have "\<dots> = Some (last (runningSums (netsOf a txs)))"
        using raws ne by (simp add: last_map runningSums_def)
      finally have "rawBalance (last items) = Some (sum_list (netsOf a txs))"
        using ne by (simp add: last_runningSums)
      then have "map_option rawBalance (lastItem items) =
             Some (Some (\<Sum>t\<in>#filter_mset (\<lambda>t. token t = a) (mset txs). netAmount t))"
        using ine by (simp add: lastItem_eq_last sum_list_netsOf)
      with len nth show ?thesis by blast
    qed
    from 1 2 show ?thesis by blast
  qed
  with m show ?thesis by blast
qed

text \<open>Three transactions over two assets: ETH ends at 5 - 2 = 3.\<close>

theorem calcBalances_running_sum_witness:
  "\<exists>balances items. calcBalances [tx ''ETH'' 5 10, tx ''DAI'' 7 11, tx ''ETH'' (-2) 12] = Inr balances \<and>
      balances ''ETH'' = Some items \<and> length items = 2 \<and>
      rawBalance (items ! 0) = Some 5 \<and> rawBalance (items ! 1) = Some 3 \<and>
      map_option rawBalance (lastItem items) = Some (Some 3)"
proof -
  let ?txs = "[tx ''ETH'' 5 10, tx ''DAI'' 7 11, tx ''ETH'' (-2) 12]"
  have n: "netsOf ''ETH'' ?txs = [5, -2]" by (simp add: netsOf_def tx_def)
  from calcBalances_running_sum[of ?txs] obtain balances where
    b: "calcBalances ?txs = Inr balances" and
    a: "\<And>a. (balances a = None) = (netsOf a ?txs = []) \<and>
        (\<forall>items. balances a = Some items \<longrightarrow>
           length items = length (netsOf a ?txs) \<and>
           (\<forall>k<length items. rawBalance (items ! k) = Some (sum_list (take (Suc k) (netsOf a ?txs)))) \<and>
           map_option rawBalance (lastItem items) =
             Some (Some (\<Sum>t\<in>#filter_mset (\<lambda>t. token t = a) (mset ?txs). netAmount t)))"
    by blast
  from a[of "''ETH''"] n obtain items where i: "balances ''ETH'' = Some items" by auto
  with a[of "''ETH''"] have l: "length items = 2"
    and k: "\<And>k. k < length items \<Longrightarrow> rawBalance (items ! k) = Some (sum_list (take (Suc k) (netsOf ''ETH'' ?txs)))"
    and s: "map_option rawBalance (lastItem items) =
             Some (Some (\<Sum>t\<in>#filter_mset (\<lambda>t. token t = ''ETH'') (mset ?txs). netAmount t))"
    using n by auto
  have "rawBalance (items ! 0) = Some 5" using k[of 0] l n by simp
  moreover have "rawBalance (items ! 1) = Some 3" using k[of 1] l n by simp
  moreover have "map_option rawBalance (lastItem items) = Some (Some 3)"
    using s by (simp add: tx_def)
  ultimately show ?thesis using b i l by blast
qed


section \<open>Theorems: price lookup\<close>

lemma findIndex_takeWhile:
  "findIndex P xs = (if \<exists>x\<in>set xs. P x then int (length (takeWhile (\<lambda>x. \<not> P x) xs)) else -1)"
  by (induction xs) (auto simp: Let_def)

lemma findIndex_none: "findIndex P xs = -1 \<longleftrightarrow> (\<forall>x\<in>set xs. \<not> P x)"
  by (simp add: findIndex_takeWhile)

lemma findIndex_zero: "findIndex P xs = 0 \<longleftrightarrow> xs \<noteq> [] \<and> P (hd xs)"
  by (cases xs) (auto simp: findIndex_takeWhile)

lemma findIndex_split:
  assumes "findIndex P xs \<noteq> -1"
  shows "\<exists>ys z zs. xs = ys @ z # zs \<and> (\<forall>y\<in>set ys. \<not> P y) \<and> P z \<and> findIndex P xs = int (length ys)"
proof -
  from assms have ex: "\<exists>x\<in>set xs. P x" by (simp add: findIndex_none)
  then have d: "dropWhile (\<lambda>x. \<not> P x) xs \<noteq> []" by (simp add: dropWhile_eq_Nil_conv)
  then obtain z zs where dz: "dropWhile (\<lambda>x. \<not> P x) xs = z # zs" by (cases "dropWhile (\<lambda>x. \<not> P x) xs") auto
  then have "P z" using hd_dropWhile[OF d] by simp
  moreover have "xs = takeWhile (\<lambda>x. \<not> P x) xs @ z # zs" using dz takeWhile_dropWhile_id[of "\<lambda>x. \<not> P x" xs] by simp
  moreover have "\<forall>y\<in>set (takeWhile (\<lambda>x. \<not> P x) xs). \<not> P y" by (auto dest: set_takeWhileD)
  moreover have "findIndex P xs = int (length (takeWhile (\<lambda>x. \<not> P x) xs))" using ex by (simp add: findIndex_takeWhile)
  ultimately show ?thesis by blast
qed

lemma js_gt_Some [simp]: "js_gt (Some x) (Some y) = (y < x)" by (simp add: js_gt_def)
lemma js_gt_None [simp]: "js_gt None b = False" by (simp add: js_gt_def)

lemma js_gt_less: "js_gt a (Some y) = (Some y < a)"
  by (cases a) simp_all






section \<open>Theorems: the seed rule\<close>

lemma addFirstBalance_front:
  assumes "xs \<noteq> []" and "\<forall>b\<in>set xs. Some S < timestamp b"
  shows "addFirstBalance xs S = zeroSeed S # xs"
proof -
  from assms have "js_gt (timestamp (hd xs)) (Some S)" by (simp add: js_gt_less)
  with assms(1) have "findIndex (\<lambda>b. js_gt (timestamp b) (Some S)) xs = 0"
    by (simp add: findIndex_zero)
  then show ?thesis by (simp add: addFirstBalance_def splice_def)
qed

lemma addFirstBalance_back:
  assumes "xs \<noteq> []" and "\<forall>b\<in>set xs. timestamp b \<le> Some S"
  shows "addFirstBalance xs S = xs @ [(last xs)\<lparr>timestamp := Some S\<rparr>]"
proof -
  from assms(2) have "\<forall>b\<in>set xs. \<not> js_gt (timestamp b) (Some S)"
    by (auto simp: js_gt_less)
  then have "findIndex (\<lambda>b. js_gt (timestamp b) (Some S)) xs = -1"
    by (simp add: findIndex_none)
  then show ?thesis using assms(1) by (simp add: addFirstBalance_def lastItem_eq_last)
qed

lemma addFirstBalance_middle:
  assumes so: "sorted (map timestamp xs)"
    and nf: "\<not> (\<forall>b\<in>set xs. Some S < timestamp b)"
    and nb: "\<not> (\<forall>b\<in>set xs. timestamp b \<le> Some S)"
  shows "\<exists>ys p zs. xs = ys @ p # zs \<and> zs \<noteq> [] \<and> timestamp p \<le> Some S \<and>
           (\<forall>b\<in>set zs. Some S < timestamp b) \<and>
           addFirstBalance xs S = ys @ p # p\<lparr>timestamp := Some S\<rparr> # zs"
proof -
  let ?P = "\<lambda>b. js_gt (timestamp b) (Some S)"
  from nb have "findIndex ?P xs \<noteq> -1" by (auto simp: findIndex_none js_gt_less not_le)
  from findIndex_split[OF this] obtain us z zs where
    x: "xs = us @ z # zs" and us: "\<forall>y\<in>set us. \<not> ?P y" and z: "?P z"
    and i: "findIndex ?P xs = int (length us)" by blast
  have une: "us \<noteq> []"
  proof
    assume "us = []"
    with x z so have "\<forall>b\<in>set xs. Some S < timestamp b" by (auto simp: js_gt_less)
    with nf show False by blast
  qed
  then obtain ys p where u: "us = ys @ [p]" by (cases us rule: rev_cases) auto
  from us u have p: "timestamp p \<le> Some S" by (auto simp: js_gt_less)
  from so x z have zs: "\<forall>b\<in>set (z # zs). Some S < timestamp b"
    by (auto simp: sorted_append js_gt_less)
  have n: "xs ! nat (int (length us) - 1) = p" unfolding x u by (simp add: nth_append)
  have "addFirstBalance xs S = splice (length us) (p\<lparr>timestamp := Some S\<rparr>) xs"
    using i une n by (simp add: addFirstBalance_def)
  also have "\<dots> = ys @ p # p\<lparr>timestamp := Some S\<rparr> # z # zs"
    unfolding x u by (simp add: splice_def)
  finally show ?thesis using x u p zs by (intro exI[of _ ys] exI[of _ p] exI[of _ "z # zs"]) simp
qed

lemma addFirstBalance_has_start: "\<exists>b\<in>set (addFirstBalance xs S). timestamp b = Some S"
proof -
  let ?P = "\<lambda>b. js_gt (timestamp b) (Some S)"
  have "set (splice i x ys) = insert x (set ys)" for i and x :: balanceItem and ys
  proof -
    have "set (take i ys) \<union> set (drop i ys) = set ys"
      by (metis append_take_drop_id set_append)
    then show ?thesis by (auto simp: splice_def)
  qed
  then show ?thesis
    by (auto simp: addFirstBalance_def Let_def zeroSeed_def)
qed

lemma addFirstBalance_sorted:
  assumes so: "sorted (map timestamp xs)"
  shows "sorted (map timestamp (addFirstBalance xs S))"
proof (cases "xs = []")
  case True
  then show ?thesis by (simp add: addFirstBalance_def)
next
  case False
  show ?thesis
  proof (cases "\<forall>b\<in>set xs. Some S < timestamp b")
    case True
    with addFirstBalance_front[OF False True] so show ?thesis
      by (auto simp: zeroSeed_def less_imp_le)
  next
    case nf: False
    show ?thesis
    proof (cases "\<forall>b\<in>set xs. timestamp b \<le> Some S")
      case True
      with addFirstBalance_back[OF False True] so show ?thesis
        by (auto simp: sorted_append)
    next
      case nb: False
      from addFirstBalance_middle[OF so nf nb] obtain ys p zs where
        x: "xs = ys @ p # zs" and p: "timestamp p \<le> Some S"
        and zs: "\<forall>b\<in>set zs. Some S < timestamp b"
        and r: "addFirstBalance xs S = ys @ p # p\<lparr>timestamp := Some S\<rparr> # zs" by blast
      from so x have "\<forall>y\<in>set ys. timestamp y \<le> timestamp p" "sorted (map timestamp ys)"
        "sorted (map timestamp zs)"
        by (auto simp: sorted_append)
      note s = this
      from s(1) p have a: "\<forall>y\<in>set ys. timestamp y \<le> Some S" using order_trans by blast
      from zs have b: "\<forall>b\<in>set zs. Some S \<le> timestamp b" by (simp add: less_imp_le)
      from a b have c: "\<forall>y\<in>set ys. \<forall>b\<in>set zs. timestamp y \<le> timestamp b"
        using order_trans by blast
      from p b have d: "\<forall>b\<in>set zs. timestamp p \<le> timestamp b" using order_trans by blast
      from s a b c d p show ?thesis unfolding r
        by (simp add: sorted_append)
    qed
  qed
qed

text \<open>
  On a non-empty series sorted by timestamp (entries without a timestamp first) the three
  cases of the seed rule are as claimed, for every start \<open>S\<close>: when every sample is after
  \<open>S\<close> the zero seed is put in front; when every sample is at or before \<open>S\<close> (or has no
  timestamp) a copy of the last sample stamped \<open>S\<close> is appended; otherwise a copy of the
  latest sample not after \<open>S\<close>, stamped \<open>S\<close>, is inserted right behind it, before the
  first sample after \<open>S\<close>. The result is sorted and holds a sample at \<open>S\<close>. The function
  has no throwing path.
\<close>

lemma addFirstBalance_cases:
  assumes "xs \<noteq> []" and "sorted (map timestamp xs)"
  shows "((\<forall>b\<in>set xs. Some S < timestamp b) \<longrightarrow> addFirstBalance xs S = zeroSeed S # xs) \<and>
         ((\<forall>b\<in>set xs. timestamp b \<le> Some S) \<longrightarrow>
            addFirstBalance xs S = xs @ [(last xs)\<lparr>timestamp := Some S\<rparr>]) \<and>
         (\<not> (\<forall>b\<in>set xs. Some S < timestamp b) \<and> \<not> (\<forall>b\<in>set xs. timestamp b \<le> Some S) \<longrightarrow>
            (\<exists>ys p zs. xs = ys @ p # zs \<and> zs \<noteq> [] \<and> timestamp p \<le> Some S \<and>
               (\<forall>b\<in>set zs. Some S < timestamp b) \<and>
               addFirstBalance xs S = ys @ p # p\<lparr>timestamp := Some S\<rparr> # zs)) \<and>
         sorted (map timestamp (addFirstBalance xs S)) \<and>
         (\<exists>b\<in>set (addFirstBalance xs S). timestamp b = Some S)"
  using addFirstBalance_front[OF assms(1)] addFirstBalance_back[OF assms(1)]
    addFirstBalance_middle[OF assms(2)] addFirstBalance_sorted[OF assms(2)]
    addFirstBalance_has_start[of xs S]
  by blast

text \<open>The three cases on a two-sample series.\<close>

lemma addFirstBalance_cases_example:
  "addFirstBalance [sample 10 1, sample 20 2] 5 = [zeroSeed 5, sample 10 1, sample 20 2] \<and>
   addFirstBalance [sample 10 1, sample 20 2] 25 = [sample 10 1, sample 20 2, sample 25 2] \<and>
   addFirstBalance [sample 10 1, sample 20 2] 15 = [sample 10 1, sample 15 1, sample 20 2] \<and>
   sorted (map timestamp (addFirstBalance [sample 10 1, sample 20 2] 15))"
proof -
  let ?xs = "[sample 10 1, sample 20 2]"
  have h: "?xs \<noteq> []" "sorted (map timestamp ?xs)" by (simp_all add: sample_def)
  have 1: "addFirstBalance ?xs 5 = [zeroSeed 5, sample 10 1, sample 20 2]"
    using addFirstBalance_cases[OF h, of 5] by (simp add: sample_def)
  have 2: "addFirstBalance ?xs 25 = [sample 10 1, sample 20 2, sample 25 2]"
    using addFirstBalance_cases[OF h, of 25] by (simp add: sample_def)
  have "\<exists>ys p zs. ?xs = ys @ p # zs \<and> zs \<noteq> [] \<and> timestamp p \<le> Some 15 \<and>
               (\<forall>b\<in>set zs. Some 15 < timestamp b) \<and>
               addFirstBalance ?xs 15 = ys @ p # p\<lparr>timestamp := Some 15\<rparr> # zs"
    using addFirstBalance_cases[OF h, of 15] by (simp add: sample_def)
  then obtain ys p zs where x: "?xs = ys @ p # zs" and z: "zs \<noteq> []" and p: "timestamp p \<le> Some 15"
    and zs: "\<forall>b\<in>set zs. Some 15 < timestamp b"
    and r: "addFirstBalance ?xs 15 = ys @ p # p\<lparr>timestamp := Some 15\<rparr> # zs" by blast
  from x z p zs have "ys = [] \<and> p = sample 10 1 \<and> zs = [sample 20 2]"
    by (cases ys; cases zs) (auto simp: sample_def Cons_eq_append_conv)
  with r have 3: "addFirstBalance ?xs 15 = [sample 10 1, sample 15 1, sample 20 2]"
    by (simp add: sample_def)
  from 1 2 3 addFirstBalance_cases[OF h, of 15] show ?thesis by simp
qed

text \<open>
  Claim C7: for every series sorted by timestamp and every start \<open>S\<close>, \<open>addFirstBalance\<close>
  puts a sample at \<open>S\<close> by one of three cases, the first being that when no sample is at
  or before \<open>S\<close> a sample with balance 0 and value 0 is inserted at the front. The code
  departs from this on the empty series, which \<open>main\<close> passes as \<open>balances["Total"]\<close>
  when the bridge has no event up to the end of the range: no sample is at or before
  \<open>S\<close>, but \<open>findIndex\<close> returns -1 as it does when every sample is at or before \<open>S\<close>,
  so the branch that copies the last sample runs, and with no last sample it pushes an
  entry that has the timestamp \<open>S\<close> and neither balance nor value. It is not the zero
  seed, and the TWAP over a window starting there (here from 5 to 10) is \<open>NaN\<close>, where
  the zero seed gives 0.
\<close>

theorem addFirstBalance_empty_series:
  "addFirstBalance [] S = [emptyItem\<lparr>timestamp := Some S\<rparr>] \<and>
   addFirstBalance [] S \<noteq> [zeroSeed S] \<and>
   calculateTwap (addFirstBalance [] 5) 5 10 = None \<and>
   calculateTwap [zeroSeed 5] 5 10 = Some 0"
  by (simp add: addFirstBalance_def zeroSeed_def emptyItem_def calculateTwap_def selected_def
      js_add_def js_mul_def js_sub_def js_div_def)

section \<open>Theorems: double arithmetic\<close>

lemma fl_Some [simp]: "fl Some x = x"
  by (simp add: fl_def split: option.splits)

lemma unrounded_Nil [simp]: "unrounded rnd []"
  by (simp add: unrounded_def)

lemma unrounded_Cons [simp]: "unrounded rnd (x # xs) \<longleftrightarrow> fl rnd x = x \<and> unrounded rnd xs"
  by (simp add: unrounded_def)

lemma unrounded_append [simp]: "unrounded rnd (xs @ ys) \<longleftrightarrow> unrounded rnd xs \<and> unrounded rnd ys"
  by (simp add: unrounded_def)

lemma roundHalfEven_of_int [simp]: "roundHalfEven (of_int z) = z"
  by (simp add: roundHalfEven_def)

lemma pow2_nonpos: "e \<le> 0 \<Longrightarrow> pow2 e = 1 / 2 ^ nat (- e)"
  by (cases "e = 0") (simp_all add: pow2_def)

lemma rnd53_zero: "rnd53 0 = Some 0"
  by code_simp

text \<open>An integer of magnitude below \<open>2 ^ 53\<close> is a double: the rounding returns it.\<close>

lemma rnd53_of_int:
  assumes "\<bar>n\<bar> < 2 ^ 53"
  shows "rnd53 (of_int n) = Some (of_int n)"
proof (cases "n = 0")
  case True
  then show ?thesis by (simp add: rnd53_zero)
next
  case False
  define a where "a = \<bar>n\<bar>"
  define k where "k = bitlen a - 1"
  from False have a0: "0 < a" by (simp add: a_def)
  from bitlen_bounds[OF a0] have lo: "2 ^ nat k \<le> a" and hi: "a < 2 ^ nat (bitlen a)"
    by (simp_all add: k_def)
  from a0 have b1: "1 \<le> bitlen a"
    using bitlen_eq_zero_iff[of a] bitlen_nonneg[of a] by linarith
  then have k0: "0 \<le> k" by (simp add: k_def)
  from lo assms have "(2::int) ^ nat k < 2 ^ 53" by (simp add: a_def)
  then have "nat k < 53" by (rule power_less_imp_less_exp[rotated]) simp
  with k0 have k52: "k \<le> 52" by linarith
  define j where "j = nat (52 - k)"
  have e: "max (- 1074) (k - 52) = k - 52" using k0 by simp
  have pe: "pow2 (k - 52) = 1 / 2 ^ j"
    using k52 pow2_nonpos[of "k - 52"] by (simp add: j_def)
  have pk: "pow2 k \<le> \<bar>of_int n :: rat\<bar>"
  proof -
    have "pow2 k = of_int (2 ^ nat k)" using k0 by (simp add: pow2_def)
    also have "\<dots> \<le> of_int a" using lo by (simp only: of_int_le_iff)
    finally show ?thesis by (simp add: a_def)
  qed
  have q: "quotient_of (of_int n) = (n, 1)" by simp
  have m: "\<bar>of_int n :: rat\<bar> / pow2 (k - 52) = of_int (a * 2 ^ j)"
    by (simp add: pe a_def)
  have ne: "\<not> (971 < k - 52 \<or> k - 52 = 971 \<and> a * 2 ^ j = 2 ^ 53)" using k52 by simp
  have b1': "bitlen 1 = 1" by (simp add: bitlen_alt_def)
  have kk: "bitlen \<bar>n\<bar> - bitlen 1 = k" by (simp add: k_def a_def b1')
  let ?x = "of_int n :: rat"
  have "rnd53 ?x =
      (if 971 < k - 52 \<or> (k - 52 = 971 \<and> roundHalfEven (\<bar>?x\<bar> / pow2 (k - 52)) = 2 ^ 53) then None
       else Some (sgn ?x * of_int (roundHalfEven (\<bar>?x\<bar> / pow2 (k - 52))) * pow2 (k - 52)))"
    unfolding rnd53_def q Let_def prod.case kk by (simp only: pk if_True e)
  also have "\<dots> = Some (sgn ?x * of_int (a * 2 ^ j) * pow2 (k - 52))"
    unfolding m roundHalfEven_of_int using ne by (simp only: if_False)
  also have "sgn (of_int n :: rat) * of_int (a * 2 ^ j) * pow2 (k - 52) = of_int n"
    by (simp add: pe a_def sgn_if)
  finally show ?thesis .
qed

lemma unrounded_rnd53_ints:
  "\<forall>n\<in>set ns. \<bar>n\<bar> < 2 ^ 53 \<Longrightarrow> unrounded rnd53 (map (\<lambda>n. Some (of_int n)) ns)"
  by (induction ns) (simp_all add: fl_def rnd53_of_int)

lemma rnd53_Ints:
  assumes "x \<in> \<int>" and "\<bar>x\<bar> < 2 ^ 53"
  shows "fl rnd53 (Some x) = Some x"
proof -
  from assms(1) obtain n where x: "x = of_int n" by (auto elim: Ints_cases)
  with assms(2) have "\<bar>of_int n :: rat\<bar> < of_int (2 ^ 53)" by simp
  then have "\<bar>n\<bar> < 2 ^ 53" by (simp only: of_int_abs[symmetric] of_int_less_iff)
  from rnd53_of_int[OF this] x show ?thesis by (simp add: fl_def)
qed

text \<open>The literal \<open>0.1\<close> denotes the double nearest to one tenth.\<close>

lemma tenth_double: "rnd53 (1 / 10) = Some tenth"
  by code_simp

section \<open>Theorems: the TWAP integrator\<close>

lemma js_add_zero [simp]: "js_add x (Some 0) = x"
  by (cases x) (simp_all add: js_add_def)


lemma js_sum_Cons [simp]: "js_sum (x # xs) = js_add x (js_sum xs)"
  by (simp add: js_sum_def)

lemma js_sum_Nil [simp]: "js_sum [] = Some 0"
  by (simp add: js_sum_def)







lemma selected_falsy: "timestamp b = None \<or> timestamp b = Some 0 \<Longrightarrow> \<not> selected s e b"
  by (auto simp: selected_def)

text \<open>
  Claim C10. A sample whose timestamp is absent or 0 is not integrated: removing it, or
  changing its value, leaves the TWAP of every window unchanged, also of a window that
  contains 0.
\<close>

theorem calculateTwap_ignores_falsy:
  assumes "timestamp b = None \<or> timestamp b = Some 0"
  shows "calculateTwap (xs @ b # ys) s e = calculateTwap (xs @ ys) s e \<and>
         calculateTwap (xs @ b\<lparr>itemValue := v\<rparr> # ys) s e = calculateTwap (xs @ b # ys) s e"
proof -
  from assms have "\<not> selected s e b" by (rule selected_falsy)
  moreover from assms have "\<not> selected s e (b\<lparr>itemValue := v\<rparr>)" by (auto simp: selected_def)
  ultimately show ?thesis by (simp add: calculateTwap_def)
qed

text \<open>The window [-5, 5) contains 0: a sample at 0 and a sample without timestamp change nothing.\<close>

theorem calculateTwap_ignores_falsy_witness:
  "calculateTwap [sample (-5) 1, sample 0 100, sample 2 3] (-5) 5 = Some (8 / 5) \<and>
   calculateTwap [sample (-5) 1, sample 2 3] (-5) 5 = Some (8 / 5) \<and>
   calculateTwap [sample (-5) 1, emptyItem\<lparr>itemValue := Some 100\<rparr>, sample 2 3] (-5) 5 = Some (8 / 5)"
proof -
  have a: "calculateTwap [sample (-5) 1, sample 2 3] (-5) 5 = Some (8 / 5)"
    by (simp add: calculateTwap_def selected_def sample_def js_mul_def js_sub_def js_add_def js_div_def)
  have b: "timestamp (sample 0 100) = None \<or> timestamp (sample 0 100) = Some 0"
    by (simp add: sample_def)
  have c: "timestamp (emptyItem\<lparr>itemValue := Some 100\<rparr>) = None \<or>
           timestamp (emptyItem\<lparr>itemValue := Some 100\<rparr>) = Some 0"
    by (simp add: emptyItem_def)
  from calculateTwap_ignores_falsy[OF b, of "[sample (-5) 1]" "[sample 2 3]" "-5" 5]
    calculateTwap_ignores_falsy[OF c, of "[sample (-5) 1]" "[sample 2 3]" "-5" 5] a
  show ?thesis by simp
qed

lemma cumValueLoop_const:
  assumes "sel \<noteq> []" and "\<forall>b\<in>set sel. itemValue b = Some v \<and> timestamp b \<noteq> None"
  shows "cumValueLoop sel e (Some c) = Some (c + v * (e - the (timestamp (hd sel))))"
  using assms
proof (induction sel e "Some c" arbitrary: c rule: cumValueLoop.induct)
  case (1 e)
  then show ?case by simp
next
  case (2 b e)
  then show ?case by (auto simp: js_add_def js_mul_def js_sub_def)
next
  case (3 b n rest e)
  from "3.prems" obtain tb tn where t: "timestamp b = Some tb" "timestamp n = Some tn"
    and v: "itemValue b = Some v" by auto
  have "js_add (Some c) (js_mul (itemValue b) (js_sub (timestamp n) (timestamp b))) = Some (c + v * (tn - tb))"
    using t v by (simp add: js_add_def js_mul_def js_sub_def)
  moreover from "3.prems" have "\<forall>b\<in>set (n # rest). itemValue b = Some v \<and> timestamp b \<noteq> None" by simp
  ultimately have "cumValueLoop (n # rest) e (js_add (Some c) (js_mul (itemValue b) (js_sub (timestamp n) (timestamp b))))
      = Some (c + v * (tn - tb) + v * (e - the (timestamp (hd (n # rest)))))"
    using "3.hyps"[of "c + v * (tn - tb)"] by simp
  then show ?case using t by (simp add: algebra_simps)
qed

text \<open>
  In exact arithmetic, for a window with \<open>s < e\<close> and \<open>s \<noteq> 0\<close> and a series sorted by
  timestamp with a sample exactly at \<open>s\<close>, whose selected samples all carry the value
  \<open>v\<close>, the weights add up to the length of the window and the quotient is \<open>v\<close>.
\<close>

lemma calculateTwap_constant:
  assumes se: "s < e" and s0: "s \<noteq> 0"
    and so: "sorted (map timestamp xs)"
    and st: "\<exists>b\<in>set xs. timestamp b = Some s"
    and cv: "\<forall>b\<in>set xs. selected s e b \<longrightarrow> itemValue b = Some v"
  shows "calculateTwap xs s e = Some v"
proof -
  let ?sel = "filter (selected s e) xs"
  from st obtain b0 where b0: "b0 \<in> set xs" "timestamp b0 = Some s" by blast
  with se s0 have b0s: "b0 \<in> set ?sel" by (simp add: selected_def)
  then have ne: "?sel \<noteq> []" by (metis empty_iff empty_set)
  have ssel: "sorted (map timestamp ?sel)" using so by (rule sorted_filter)
  have "hd ?sel \<in> set ?sel" using ne by (rule hd_in_set)
  then have "selected s e (hd ?sel)" by simp
  then obtain t where t: "timestamp (hd ?sel) = Some t" "s \<le> t"
    by (auto simp: selected_def split: option.splits)
  have "timestamp (hd ?sel) \<le> timestamp b0"
    using ssel b0s ne by (cases ?sel) auto
  with t b0 have ht: "timestamp (hd ?sel) = Some s" by simp
  have "\<forall>b\<in>set ?sel. itemValue b = Some v \<and> timestamp b \<noteq> None"
    using cv by (auto simp: selected_def split: option.splits)
  from cumValueLoop_const[OF ne this, of e 0] ht
  have "cumValueLoop ?sel e (Some 0) = Some (v * (e - s))" by simp
  then show ?thesis using se by (simp add: calculateTwap_def js_div_def js_sub_def)
qed

text \<open>
  When no operation rounds, the double computation is the exact one; and the exact one is
  the double computation with the rounding left out.
\<close>

lemma cumValueLoopFl_unrounded:
  "unrounded rnd (cumValueTrace sel e cum) \<Longrightarrow> cumValueLoopFl rnd sel e cum = cumValueLoop sel e cum"
proof (induction sel e cum rule: cumValueLoop.induct)
  case (1 e cum)
  then show ?case by simp
next
  case (2 b e cum)
  then show ?case by (simp add: Let_def fl_add_def fl_mul_def fl_sub_def)
next
  case (3 b n rest e cum)
  then show ?case by (simp add: Let_def fl_add_def fl_mul_def fl_sub_def)
qed

lemma calculateTwapFl_unrounded:
  assumes "unrounded rnd (twapTrace xs s e)"
  shows "calculateTwapFl rnd xs s e = calculateTwap xs s e"
proof -
  from assms have c: "unrounded rnd (cumValueTrace (filter (selected s e) xs) e (Some 0))"
    and d: "fl rnd (js_sub (Some e) (Some s)) = js_sub (Some e) (Some s)"
    and q: "fl rnd (calculateTwap xs s e) = calculateTwap xs s e"
    by (simp_all add: twapTrace_def)
  show ?thesis
    using q by (simp add: calculateTwapFl_def fl_div_def fl_sub_def d cumValueLoopFl_unrounded[OF c]
        calculateTwap_def)
qed

lemma calculateTwapFl_exact: "calculateTwapFl Some xs s e = calculateTwap xs s e"
proof -
  have "cumValueLoopFl Some sel e cum = cumValueLoop sel e cum" for sel cum
    by (induction sel e cum rule: cumValueLoop.induct) (simp_all add: fl_add_def fl_mul_def fl_sub_def)
  then show ?thesis by (simp add: calculateTwapFl_def calculateTwap_def fl_div_def fl_sub_def)
qed

text \<open>
  Claim C5, amended to a start other than 0 and to an integration in which no operation
  rounds. For a window with \<open>s < e\<close> and \<open>s \<noteq> 0\<close>, a series sorted by timestamp with a
  sample exactly at \<open>s\<close>, whose selected samples all carry the value \<open>v\<close>: when every
  operation of \<open>calculateTwap\<close> (each time period, each weighted value, each new
  \<open>cumValue\<close>, the length of the window and the quotient) has an exact result that is a
  double, the TWAP computed in double arithmetic is \<open>v\<close>, whatever the rounding \<open>rnd\<close>
  does to other numbers.
\<close>

theorem calculateTwapFl_constant:
  assumes se: "s < e" and s0: "s \<noteq> 0"
    and so: "sorted (map timestamp xs)"
    and st: "\<exists>b\<in>set xs. timestamp b = Some s"
    and cv: "\<forall>b\<in>set xs. selected s e b \<longrightarrow> itemValue b = Some v"
    and nr: "unrounded rnd (twapTrace xs s e)"
  shows "calculateTwapFl rnd xs s e = Some v"
  using calculateTwapFl_unrounded[OF nr] calculateTwap_constant[OF se s0 so st cv] by simp

text \<open>
  Three samples of value 7 in [10, 20), other values outside the window, in the arithmetic
  of doubles: every result of the integration is a small integer.
\<close>

theorem calculateTwapFl_constant_witness:
  "calculateTwapFl rnd53 [sample 5 9, sample 10 7, sample 12 7, sample 17 7, sample 30 2] 10 20 = Some 7"
proof -
  let ?xs = "[sample 5 9, sample 10 7, sample 12 7, sample 17 7, sample 30 2]"
  have h: "(10::rat) < 20" "(10::rat) \<noteq> 0" "sorted (map timestamp ?xs)"
    "\<exists>b\<in>set ?xs. timestamp b = Some 10"
    "\<forall>b\<in>set ?xs. selected 10 20 b \<longrightarrow> itemValue b = Some 7"
    by (simp_all add: sample_def selected_def)
  have t: "twapTrace ?xs 10 20 =
      map (\<lambda>n. Some (of_int n)) [2, 14, 14, 5, 35, 49, 3, 21, 70, 10, 7]"
    by code_simp
  have u: "unrounded rnd53 (twapTrace ?xs 10 20)"
    unfolding t by (rule unrounded_rnd53_ints) simp
  from calculateTwapFl_constant[OF h u] show ?thesis .
qed

text \<open>
  The claim as stated fails on two inputs. One sample of value \<open>0.1\<close> at 10 and the window
  from 10 to 13: \<open>0.1 * 3\<close> rounds to \<open>0.30000000000000004\<close>, and that divided by 3 rounds
  to \<open>0.10000000000000002\<close>, not \<open>0.1\<close>. A window starting at 0: the sample at the start
  has the falsy timestamp 0, the filter drops it, and the TWAP of the constant series 7 is 0.
\<close>

theorem calculateTwapFl_constant_counterexample:
  "\<not> ((10::rat) < 13 \<and> (\<exists>b\<in>set [sample 10 tenth]. timestamp b = Some 10) \<and>
        (\<forall>b\<in>set [sample 10 tenth]. inWindow 10 13 b \<longrightarrow> itemValue b = Some tenth) \<longrightarrow>
        calculateTwapFl rnd53 [sample 10 tenth] 10 13 = Some tenth) \<and>
   \<not> ((0::rat) < 10 \<and> (\<exists>b\<in>set [sample 0 7]. timestamp b = Some 0) \<and>
        (\<forall>b\<in>set [sample 0 7]. inWindow 0 10 b \<longrightarrow> itemValue b = Some 7) \<longrightarrow>
        calculateTwapFl rnd53 [sample 0 7] 0 10 = Some 7)"
proof -
  have a: "calculateTwapFl rnd53 [sample 10 tenth] 10 13 =
      Some (7205759403792795 / 72057594037927936)"
    by code_simp
  have b: "calculateTwapFl rnd53 [sample 0 7] 0 10 = Some 0"
    by code_simp
  from a have a': "calculateTwapFl rnd53 [sample 10 tenth] 10 13 \<noteq> Some tenth"
    by (simp add: tenth_def)
  from b have b': "calculateTwapFl rnd53 [sample 0 7] 0 10 \<noteq> Some 7"
    by simp
  from a' b' show ?thesis
    by (simp add: inWindow_def sample_def)
qed

text \<open>
  The operations of the integration do not round when the timestamps and the value are
  integers and the value times the length of the window is below \<open>2 ^ 53\<close>: then the
  TWAP of a constant series is its value in the arithmetic of doubles.
\<close>

lemma cumValueTrace_Ints:
  fixes s e v :: rat
  assumes ints: "s \<in> \<int>" "e \<in> \<int>" "v \<in> \<int>"
    and bd: "\<bar>v\<bar> * (e - s) < 2 ^ 53" "e - s < 2 ^ 53"
  shows "sorted (map timestamp (b # rest)) \<Longrightarrow>
     \<forall>x\<in>set (b # rest). itemValue x = Some v \<and> (\<exists>t. timestamp x = Some t \<and> t \<in> \<int> \<and> s \<le> t \<and> t < e) \<Longrightarrow>
     unrounded rnd53 (cumValueTrace (b # rest) e (Some (v * (the (timestamp b) - s))))"
proof (induction rest arbitrary: b)
  case Nil
  then obtain t where t: "timestamp b = Some t" "t \<in> \<int>" "s \<le> t" "t < e" and vb: "itemValue b = Some v"
    by auto
  have B: "\<bar>v * d\<bar> < 2 ^ 53" if "0 \<le> d" "d \<le> e - s" for d
  proof -
    have "\<bar>v * d\<bar> = \<bar>v\<bar> * d" using that(1) by (simp add: abs_mult)
    also have "\<dots> \<le> \<bar>v\<bar> * (e - s)" using that(2) by (rule mult_left_mono) simp
    finally show ?thesis using bd(1) by simp
  qed
  have 1: "fl rnd53 (Some (e - t)) = Some (e - t)"
    using t bd(2) ints by (intro rnd53_Ints Ints_diff) auto
  have 2: "fl rnd53 (Some (v * (e - t))) = Some (v * (e - t))"
    using t ints B[of "e - t"] by (intro rnd53_Ints Ints_mult Ints_diff) auto
  have "v * (t - s) + v * (e - t) = v * (e - s)" by (simp add: algebra_simps)
  moreover have "fl rnd53 (Some (v * (e - s))) = Some (v * (e - s))"
    using t ints B[of "e - s"] by (intro rnd53_Ints Ints_mult Ints_diff) auto
  ultimately have 3: "fl rnd53 (Some (v * (t - s) + v * (e - t))) = Some (v * (t - s) + v * (e - t))"
    by simp
  show ?case using 1 2 3 by (simp add: t vb Let_def js_sub_def js_mul_def js_add_def)
next
  case (Cons n rest)
  from Cons.prems obtain t where t: "timestamp b = Some t" "t \<in> \<int>" "s \<le> t" "t < e" and vb: "itemValue b = Some v"
    by auto
  from Cons.prems obtain u where u: "timestamp n = Some u" "u \<in> \<int>" "s \<le> u" "u < e"
    by auto
  from Cons.prems(1) t u have tu: "t \<le> u" by simp
  have B: "\<bar>v * d\<bar> < 2 ^ 53" if "0 \<le> d" "d \<le> e - s" for d
  proof -
    have "\<bar>v * d\<bar> = \<bar>v\<bar> * d" using that(1) by (simp add: abs_mult)
    also have "\<dots> \<le> \<bar>v\<bar> * (e - s)" using that(2) by (rule mult_left_mono) simp
    finally show ?thesis using bd(1) by simp
  qed
  have 1: "fl rnd53 (Some (u - t)) = Some (u - t)"
    using t u tu bd(2) ints by (intro rnd53_Ints Ints_diff) auto
  have 2: "fl rnd53 (Some (v * (u - t))) = Some (v * (u - t))"
    using t u tu ints B[of "u - t"] by (intro rnd53_Ints Ints_mult Ints_diff) auto
  have eq: "v * (t - s) + v * (u - t) = v * (u - s)" by (simp add: algebra_simps)
  have "fl rnd53 (Some (v * (u - s))) = Some (v * (u - s))"
    using u ints B[of "u - s"] by (intro rnd53_Ints Ints_mult Ints_diff) auto
  with eq have 3: "fl rnd53 (Some (v * (t - s) + v * (u - t))) = Some (v * (t - s) + v * (u - t))"
    by simp
  have "unrounded rnd53 (cumValueTrace (n # rest) e (Some (v * (the (timestamp n) - s))))"
    using Cons.prems by (intro Cons.IH) auto
  then have 4: "unrounded rnd53 (cumValueTrace (n # rest) e (Some (v * (t - s) + v * (u - t))))"
    using u eq by simp
  show ?case using 1 2 3 4 by (simp add: t u vb Let_def js_sub_def js_mul_def js_add_def)
qed

lemma twapTrace_Ints:
  fixes s e v :: rat
  assumes se: "s < e" and s0: "s \<noteq> 0"
    and so: "sorted (map timestamp xs)"
    and st: "\<exists>b\<in>set xs. timestamp b = Some s"
    and cv: "\<forall>b\<in>set xs. selected s e b \<longrightarrow> itemValue b = Some v"
    and ti: "\<forall>b\<in>set xs. selected s e b \<longrightarrow> the (timestamp b) \<in> \<int>"
    and ints: "s \<in> \<int>" "e \<in> \<int>" "v \<in> \<int>"
    and bd: "\<bar>v\<bar> * (e - s) < 2 ^ 53" "e - s < 2 ^ 53"
  shows "unrounded rnd53 (twapTrace xs s e)"
proof -
  let ?sel = "filter (selected s e) xs"
  from st obtain b0 where b0: "b0 \<in> set xs" "timestamp b0 = Some s" by blast
  with se s0 have b0s: "b0 \<in> set ?sel" by (simp add: selected_def)
  then have ne: "?sel \<noteq> []" by (metis empty_iff empty_set)
  then obtain b rest where br: "?sel = b # rest" by (cases ?sel) auto
  have ssel: "sorted (map timestamp ?sel)" using so by (rule sorted_filter)
  have "b \<in> set ?sel" using br by simp
  then have "selected s e b" by simp
  then obtain t where t: "timestamp b = Some t" "s \<le> t"
    by (auto simp: selected_def split: option.splits)
  have "timestamp b \<le> timestamp b0" using ssel b0s br by auto
  with t b0 have ht: "timestamp b = Some s" by simp
  have props: "\<forall>x\<in>set (b # rest). itemValue x = Some v \<and>
      (\<exists>t. timestamp x = Some t \<and> t \<in> \<int> \<and> s \<le> t \<and> t < e)"
  proof
    fix x assume "x \<in> set (b # rest)"
    then have x: "x \<in> set xs" "selected s e x" unfolding br[symmetric] by simp_all
    with cv ti show "itemValue x = Some v \<and> (\<exists>t. timestamp x = Some t \<and> t \<in> \<int> \<and> s \<le> t \<and> t < e)"
      by (auto simp: selected_def split: option.splits)
  qed
  from cumValueTrace_Ints[OF ints bd, of b rest] ssel props ht
  have c: "unrounded rnd53 (cumValueTrace ?sel e (Some 0))" by (simp add: br)
  have d: "fl rnd53 (js_sub (Some e) (Some s)) = js_sub (Some e) (Some s)"
    using ints bd(2) se by (simp add: js_sub_def) (intro rnd53_Ints Ints_diff, auto)
  have "1 \<le> e - s"
  proof -
    from ints obtain i j where "s = of_int i" "e = of_int j" by (auto elim!: Ints_cases)
    with se show ?thesis by (simp flip: of_int_diff)
  qed
  then have "\<bar>v\<bar> * 1 \<le> \<bar>v\<bar> * (e - s)" by (intro mult_left_mono) auto
  with bd(1) have "\<bar>v\<bar> < 2 ^ 53" by simp
  then have q: "fl rnd53 (calculateTwap xs s e) = calculateTwap xs s e"
    using calculateTwap_constant[OF se s0 so st cv] ints(3) by (simp add: rnd53_Ints)
  from c d q show ?thesis by (simp add: twapTrace_def)
qed

lemma calculateTwapFl_constant_Ints:
  fixes s e v :: rat
  assumes se: "s < e" and s0: "s \<noteq> 0"
    and so: "sorted (map timestamp xs)"
    and st: "\<exists>b\<in>set xs. timestamp b = Some s"
    and cv: "\<forall>b\<in>set xs. selected s e b \<longrightarrow> itemValue b = Some v"
    and ti: "\<forall>b\<in>set xs. selected s e b \<longrightarrow> the (timestamp b) \<in> \<int>"
    and ints: "s \<in> \<int>" "e \<in> \<int>" "v \<in> \<int>"
    and bd: "\<bar>v\<bar> * (e - s) < 2 ^ 53" "e - s < 2 ^ 53"
  shows "calculateTwapFl rnd53 xs s e = Some v"
  using calculateTwapFl_unrounded[OF twapTrace_Ints[OF assms]]
    calculateTwap_constant[OF se s0 so st cv] by simp

lemma calculateTwap_first_selected:
  assumes se: "s < e" and f: "filter (selected s e) xs = b # bs" and tb: "timestamp b = Some s"
    and cv: "\<forall>b\<in>set xs. selected s e b \<longrightarrow> itemValue b = Some v"
  shows "calculateTwap xs s e = Some v"
proof -
  let ?sel = "filter (selected s e) xs"
  from f have ne: "?sel \<noteq> []" by simp
  have "\<forall>b\<in>set ?sel. itemValue b = Some v \<and> timestamp b \<noteq> None"
    using cv by (auto simp: selected_def split: option.splits)
  from cumValueLoop_const[OF ne this, of e 0] f tb
  have "cumValueLoop ?sel e (Some 0) = Some (v * (e - s))" by simp
  then show ?thesis using se by (simp add: calculateTwap_def js_div_def js_sub_def)
qed

text \<open>
  The seed rule gives the sample at the start the claim asks for, sorted series or not:
  after \<open>addFirstBalance\<close> the seed stands before the first sample after the start, so the
  first selected sample of a window starting there is at the start.
\<close>

lemma addFirstBalance_shape:
  "\<exists>us seed rest. addFirstBalance xs S = us @ seed # rest \<and> timestamp seed = Some S \<and>
     (\<forall>u\<in>set us. \<not> js_gt (timestamp u) (Some S))"
proof (cases "findIndex (\<lambda>b. js_gt (timestamp b) (Some S)) xs = -1")
  case True
  then have "\<forall>u\<in>set xs. \<not> js_gt (timestamp u) (Some S)" by (simp add: findIndex_none)
  moreover have "addFirstBalance xs S =
      xs @ (case lastItem xs of None \<Rightarrow> emptyItem | Some l \<Rightarrow> l)\<lparr>timestamp := Some S\<rparr> # []"
    using True by (simp add: addFirstBalance_def)
  ultimately show ?thesis
    by (intro exI[of _ xs] exI[of _ "(case lastItem xs of None \<Rightarrow> emptyItem | Some l \<Rightarrow> l)\<lparr>timestamp := Some S\<rparr>"]
        exI[of _ "[]"]) simp
next
  case False
  from findIndex_split[OF False] obtain ys z zs where
    x: "xs = ys @ z # zs" and ys: "\<forall>y\<in>set ys. \<not> js_gt (timestamp y) (Some S)"
    and i: "findIndex (\<lambda>b. js_gt (timestamp b) (Some S)) xs = int (length ys)" by blast
  show ?thesis
  proof (cases "ys = []")
    case True
    with i have "addFirstBalance xs S = [] @ zeroSeed S # xs"
      by (simp add: addFirstBalance_def splice_def)
    then show ?thesis by (intro exI[of _ "[]"] exI[of _ "zeroSeed S"] exI[of _ xs]) (simp add: zeroSeed_def)
  next
    case ne: False
    let ?seed = "(xs ! nat (int (length ys) - 1))\<lparr>timestamp := Some S\<rparr>"
    have "addFirstBalance xs S = splice (length ys) ?seed xs"
      using i ne False by (simp add: addFirstBalance_def)
    also have "\<dots> = ys @ ?seed # z # zs" by (subst (2) x) (simp add: splice_def x)
    finally show ?thesis using ys by (intro exI[of _ ys] exI[of _ ?seed] exI[of _ "z # zs"]) simp
  qed
qed

lemma addFirstBalance_first_selected:
  assumes "s < e" and "s \<noteq> 0"
  shows "\<exists>b bs. filter (selected s e) (addFirstBalance xs s) = b # bs \<and> timestamp b = Some s"
proof -
  from addFirstBalance_shape[of xs s] obtain us seed rest where
    a: "addFirstBalance xs s = us @ seed # rest" and t: "timestamp seed = Some s"
    and u: "\<forall>u\<in>set us. \<not> js_gt (timestamp u) (Some s)" by blast
  from t assms have ss: "selected s e seed" by (simp add: selected_def)
  have fu: "\<forall>b\<in>set (filter (selected s e) us). timestamp b = Some s"
  proof
    fix b assume "b \<in> set (filter (selected s e) us)"
    then have "b \<in> set us" "selected s e b" by simp_all
    with u show "timestamp b = Some s"
      by (cases "timestamp b") (auto simp: selected_def js_gt_def)
  qed
  have f: "filter (selected s e) (addFirstBalance xs s) =
      filter (selected s e) us @ seed # filter (selected s e) rest"
    using a ss by simp
  show ?thesis
  proof (cases "filter (selected s e) us")
    case Nil
    with f t show ?thesis by simp
  next
    case (Cons b bs)
    with fu have "timestamp b = Some s" by simp
    with f Cons show ?thesis by simp
  qed
qed

lemma calculateTwap_constant_seeded:
  assumes "s < e" and "s \<noteq> 0"
    and "\<forall>b\<in>set (addFirstBalance xs s). selected s e b \<longrightarrow> itemValue b = Some v"
  shows "calculateTwap (addFirstBalance xs s) s e = Some v"
proof -
  from addFirstBalance_first_selected[OF assms(1,2), of xs] obtain b bs where
    "filter (selected s e) (addFirstBalance xs s) = b # bs" "timestamp b = Some s" by blast
  from calculateTwap_first_selected[OF assms(1) this assms(3)] show ?thesis .
qed

lemma calculateTwapFl_constant_seeded:
  assumes "s < e" and "s \<noteq> 0"
    and "\<forall>b\<in>set (addFirstBalance xs s). selected s e b \<longrightarrow> itemValue b = Some v"
    and "unrounded rnd (twapTrace (addFirstBalance xs s) s e)"
  shows "calculateTwapFl rnd (addFirstBalance xs s) s e = Some v"
  using calculateTwapFl_unrounded[OF assms(4)] calculateTwap_constant_seeded[OF assms(1-3)] by simp

section \<open>Theorems: the rate-limited event fetcher\<close>

text \<open>
  The loop goes on only while \<open>lastBlock + 1 + blockRange < toBlock\<close>. After a successful
  request that ends at \<open>toBlock - 1\<close> that test is false, and the loop ends with the last
  block never requested. Range [0, 4], requests of more than 2 blocks failing: [0, 4] fails,
  [0, 1] succeeds, [2, 4] fails, [2, 3] succeeds, and the loop ends without block 4.
\<close>

lemma getRateLimitedEvents_skips_last_block:
  "getRateLimitedEvents (failsAbove 2) (map eventAt [0, 1, 2, 3, 4]) 0 4 = Some (map eventAt [0, 1, 2, 3])"
  by (simp add: getRateLimitedEvents_def rateLimitedLoop.simps getPastEvents_def failsAbove_def eventAt_def)

text \<open>
  Claim C2, evaluated at the scenario of the specification: range [0, 200], one event in
  every block, every request of more than 50 blocks failing. The code returns the events of
  blocks 0 to 199 and misses the event of block 200.
\<close>

theorem getRateLimitedEvents_spec_scenario:
  "getRateLimitedEvents (failsAbove 50) (map eventAt [0..200]) 0 200 = Some (map eventAt [0..199])"
  by code_simp

section \<open>Theorems: the block cache\<close>

lemma splice_sortedIndexBy:
  "splice (sortedIndexBy xs k key) b xs = takeWhile (\<lambda>x. key x < k) xs @ b # dropWhile (\<lambda>x. key x < k) xs"
  unfolding splice_def sortedIndexBy_def
  using takeWhile_eq_take[of "\<lambda>x. key x < k" xs] dropWhile_eq_drop[of "\<lambda>x. key x < k" xs]
  by simp

lemma nthOpt_sortedIndexBy_None:
  assumes "\<forall>x\<in>set xs. key x < k"
  shows "nthOpt xs (int (sortedIndexBy xs k key)) = None"
proof -
  from assms have "takeWhile (\<lambda>x. key x < k) xs = xs" by (simp add: takeWhile_eq_all_conv)
  then have "length (takeWhile (\<lambda>x. key x < k) xs) = length xs" by (rule arg_cong)
  then show ?thesis by (simp add: nthOpt_def sortedIndexBy_def)
qed

lemma nthOpt_sortedIndexBy_Some:
  assumes "dropWhile (\<lambda>x. key x < k) xs = y # ys"
  shows "nthOpt xs (int (sortedIndexBy xs k key)) = Some y"
proof -
  let ?P = "\<lambda>x. key x < k"
  have x: "xs = takeWhile ?P xs @ y # ys" using assms by (metis takeWhile_dropWhile_id)
  have "xs ! length (takeWhile ?P xs) = y"
    by (metis x nth_append_length)
  moreover have "length (takeWhile ?P xs) < length xs"
    by (metis x length_append length_Cons less_add_Suc1 add_Suc_right)
  ultimately show ?thesis by (simp add: nthOpt_def sortedIndexBy_def)
qed

lemma sorted_dropWhile_ge:
  assumes "sorted_wrt (<) (map key xs)"
  shows "\<forall>y\<in>set (dropWhile (\<lambda>x. key x < (k::int)) xs). k \<le> key y"
proof (cases "dropWhile (\<lambda>x. key x < k) xs")
  case Nil
  then show ?thesis by (simp only: list.set ball_empty)
next
  case (Cons z zs)
  let ?P = "\<lambda>x. key x < k"
  have "\<not> ?P z" using hd_dropWhile[of ?P xs] Cons by simp
  moreover have "sorted_wrt (<) (map key (z # zs))"
    using assms Cons by (metis sorted_wrt_append takeWhile_dropWhile_id map_append)
  ultimately show ?thesis using Cons by fastforce
qed

lemma cacheSorted_insert:
  assumes s: "cacheSorted xs" and nb: "number b = k"
    and nk: "\<forall>y\<in>set xs. number y \<noteq> k"
  shows "cacheSorted (splice (sortedIndexBy xs k number) b xs)"
proof -
  let ?P = "\<lambda>x. number x < k"
  have x: "xs = takeWhile ?P xs @ dropWhile ?P xs" by simp
  from s have st: "sorted_wrt (<) (map number (takeWhile ?P xs))"
    and sd: "sorted_wrt (<) (map number (dropWhile ?P xs))"
    unfolding cacheSorted_def by (metis sorted_wrt_append x map_append)+
  have lt: "\<forall>y\<in>set (takeWhile ?P xs). number y < k" by (auto dest: set_takeWhileD)
  have "\<forall>y\<in>set (dropWhile ?P xs). k \<le> number y"
    using sorted_dropWhile_ge[of number xs k] s by (simp add: cacheSorted_def)
  moreover have "\<forall>y\<in>set (dropWhile ?P xs). number y \<noteq> k" using nk by (auto dest: set_dropWhileD)
  ultimately have gt: "\<forall>y\<in>set (dropWhile ?P xs). k < number y" by fastforce
  from lt gt have "\<forall>y\<in>set (takeWhile ?P xs). \<forall>z\<in>set (dropWhile ?P xs). number y < number z"
    by fastforce
  with st sd lt gt nb show ?thesis
    unfolding cacheSorted_def splice_sortedIndexBy by (simp add: sorted_wrt_append)
qed

lemma set_splice: "set (splice i b xs) = insert b (set xs)"
proof -
  have "set (take i xs) \<union> set (drop i xs) = set xs" by (metis append_take_drop_id set_append)
  then show ?thesis by (auto simp: splice_def)
qed

lemma cacheSorted_hd_dropWhile:
  assumes s: "cacheSorted xs" and d: "dropWhile (\<lambda>x. number x < k) xs = y # ys" and ny: "number y \<noteq> k"
  shows "\<forall>z\<in>set xs. number z \<noteq> k"
proof -
  let ?P = "\<lambda>x. number x < k"
  have x: "xs = takeWhile ?P xs @ y # ys" using d by (metis takeWhile_dropWhile_id)
  have lt: "\<forall>z\<in>set (takeWhile ?P xs). number z < k" by (auto dest: set_takeWhileD)
  have "k \<le> number y" using sorted_dropWhile_ge[of number xs k] s d by (simp add: cacheSorted_def)
  with ny have ky: "k < number y" by simp
  have "sorted_wrt (<) (map number (y # ys))"
    using s x unfolding cacheSorted_def by (metis sorted_wrt_append map_append)
  then have "\<forall>z\<in>set ys. number y < number z" by simp
  with ky have "\<forall>z\<in>set (y # ys). k < number z" by fastforce
  with lt have "\<forall>z\<in>set (takeWhile ?P xs) \<union> set (y # ys). number z \<noteq> k" by fastforce
  then show ?thesis using x by (metis set_append)
qed

lemma cacheSorted_no_key:
  assumes "dropWhile (\<lambda>x. number x < k) xs = []"
  shows "\<forall>z\<in>set xs. number z \<noteq> (k::int)"
proof -
  from assms have "\<forall>z\<in>set xs. number z < k" by (simp add: dropWhile_eq_Nil_conv)
  then show ?thesis by fastforce
qed

text \<open>What getBlock returns and leaves, case by case.\<close>

lemma getBlock_cases:
  assumes s: "cacheSorted blocks"
  shows "(\<exists>b\<in>set blocks. number b = n \<and> getBlock rb blocks n = (b, blocks)) \<or>
         ((\<forall>b\<in>set blocks. number b \<noteq> n) \<and>
          getBlock rb blocks n = (rb (BlockNumber n), splice (sortedIndexBy blocks n number) (rb (BlockNumber n)) blocks))"
proof (cases "dropWhile (\<lambda>x. number x < n) blocks")
  case Nil
  then show ?thesis
    using cacheSorted_no_key[OF Nil] by (simp add: getBlock_def nthOpt_sortedIndexBy_None Let_def)
next
  case (Cons y ys)
  show ?thesis
  proof (cases "number y = n")
    case True
    have "y \<in> set blocks" using Cons by (metis list.set_intros(1) set_dropWhileD)
    then show ?thesis using True by (auto simp: getBlock_def nthOpt_sortedIndexBy_Some[OF Cons] Let_def)
  next
    case False
    then show ?thesis
      using cacheSorted_hd_dropWhile[OF s Cons False]
      by (simp add: getBlock_def nthOpt_sortedIndexBy_Some[OF Cons] Let_def)
  qed
qed

lemma getBlock_sorted:
  assumes "cacheSorted blocks" and "number (rb (BlockNumber n)) = n"
  shows "cacheSorted (snd (getBlock rb blocks n))"
  using getBlock_cases[OF assms(1), of n rb] cacheSorted_insert[OF assms(1) assms(2)] assms(1)
  by auto

lemma getLatestBlock_cases:
  assumes s: "cacheSorted blocks"
  shows "(\<exists>b\<in>set blocks. number b = number (rb Latest) \<and> getLatestBlock rb blocks = (b, blocks)) \<or>
         ((\<forall>b\<in>set blocks. number b \<noteq> number (rb Latest)) \<and>
          getLatestBlock rb blocks =
            (rb Latest, splice (sortedIndexBy blocks (number (rb Latest)) number) (rb Latest) blocks))"
proof -
  let ?k = "number (rb Latest)"
  let ?i = "sortedIndexBy blocks ?k number"
  have ins: "splice ?i (rb Latest) blocks ! ?i = rb Latest"
    unfolding splice_sortedIndexBy by (simp add: sortedIndexBy_def nth_append)
  show ?thesis
  proof (cases "dropWhile (\<lambda>x. number x < ?k) blocks")
    case Nil
    then show ?thesis
      using cacheSorted_no_key[OF Nil] ins by (simp add: getLatestBlock_def nthOpt_sortedIndexBy_None Let_def)
  next
    case (Cons y ys)
    have yb: "y \<in> set blocks" using Cons by (metis list.set_intros(1) set_dropWhileD)
    have yi: "blocks ! ?i = y"
      using Cons by (metis sortedIndexBy_def nth_append_length takeWhile_dropWhile_id)
    show ?thesis
    proof (cases "number y = ?k")
      case True
      then show ?thesis using yb yi by (auto simp: getLatestBlock_def nthOpt_sortedIndexBy_Some[OF Cons] Let_def)
    next
      case False
      then show ?thesis
        using cacheSorted_hd_dropWhile[OF s Cons False] ins
        by (simp add: getLatestBlock_def nthOpt_sortedIndexBy_Some[OF Cons] Let_def)
    qed
  qed
qed

lemma getLatestBlock_sorted:
  assumes "cacheSorted blocks"
  shows "cacheSorted (snd (getLatestBlock rb blocks))"
  using getLatestBlock_cases[OF assms, of rb] cacheSorted_insert[OF assms, of "rb Latest" "number (rb Latest)"] assms
  by auto

lemma searchBackwards_sorted_aux:
  assumes "searchBackwards rb blocks T ini inc m = Some y"
  shows "(\<forall>n. number (rb (BlockNumber n)) = n) \<longrightarrow> cacheSorted blocks \<longrightarrow> cacheSorted (snd y)"
proof (rule searchBackwards.raw_induct[where P = "\<lambda>rb blocks T ini inc m y.
    (\<forall>n. number (rb (BlockNumber n)) = n) \<longrightarrow> cacheSorted blocks \<longrightarrow> cacheSorted (snd y)", OF _ assms],
    goal_cases)
  case (1 sb rb blocks T ini inc m y)
  show ?case
  proof (intro impI)
    assume rb: "\<forall>n. number (rb (BlockNumber n)) = n" and s: "cacheSorted blocks"
    let ?bn = "max 0 (number ini - m * inc)"
    have g: "cacheSorted (snd (getBlock rb blocks ?bn))"
      using getBlock_sorted[OF s, of rb ?bn] rb by simp
    from 1(2) 1(1)[of rb "snd (getBlock rb blocks ?bn)" T ini inc "m + 1" y] g rb
    show "cacheSorted (snd y)"
      by (auto simp: Let_def split: if_splits)
  qed
qed

lemma searchBackwards_sorted:
  assumes "searchBackwards rb blocks T ini inc m = Some y"
    and "\<forall>n. number (rb (BlockNumber n)) = n" and "cacheSorted blocks"
  shows "cacheSorted (snd y)"
  using searchBackwards_sorted_aux[OF assms(1)] assms(2,3) by blast

lemma findBlock_sorted_aux:
  assumes "findBlock rb blocks s e T = Some y"
  shows "(\<forall>n. number (rb (BlockNumber n)) = n) \<longrightarrow> cacheSorted blocks \<longrightarrow> cacheSorted (snd y)"
proof (rule findBlock.raw_induct[where P = "\<lambda>rb blocks s e T y.
    (\<forall>n. number (rb (BlockNumber n)) = n) \<longrightarrow> cacheSorted blocks \<longrightarrow> cacheSorted (snd y)", OF _ assms],
    goal_cases)
  case (1 fb rb blocks s e T y)
  show ?case
  proof (intro impI)
    assume rb: "\<forall>n. number (rb (BlockNumber n)) = n" and cs: "cacheSorted blocks"
    have g: "cacheSorted (snd (getBlock rb blocks n))" for n
      using getBlock_sorted[OF cs, of rb n] rb by simp
    have ih: "fb rb (snd (getBlock rb blocks n)) s' e' T = Some y \<Longrightarrow> cacheSorted (snd y)" for n s' e'
      using 1(1)[of rb "snd (getBlock rb blocks n)" s' e' T y] g rb by blast
    from 1(2) cs show "cacheSorted (snd y)"
      by (auto simp: Let_def split: if_splits option.splits dest: ih)
  qed
qed

lemma findBlock_sorted:
  assumes "findBlock rb blocks s e T = Some y"
    and "\<forall>n. number (rb (BlockNumber n)) = n" and "cacheSorted blocks"
  shows "cacheSorted (snd y)"
  using findBlock_sorted_aux[OF assms(1)] assms(2,3) by blast

lemma getBlockForTimestamp_sorted:
  assumes r: "getBlockForTimestamp rb blocks T = Some y"
    and rb: "\<forall>n. number (rb (BlockNumber n)) = n" and s: "cacheSorted blocks"
  shows "cacheSorted (snd y)"
proof -
  define hs where "hs =
            (if blocks = [] \<or> blockTimestamp (last blocks) < T then
               (let r = getLatestBlock rb blocks
                in (if T \<ge> blockTimestamp (fst r) then Some (fst r) else None, snd r))
             else (None, blocks))"
  have s1: "cacheSorted (snd hs)"
    using getLatestBlock_sorted[OF s, of rb] s by (simp add: hs_def Let_def)
  show ?thesis
  proof (cases "fst hs")
    case (Some b)
    with r s1 show ?thesis
      unfolding getBlockForTimestamp_def hs_def[symmetric] by (auto simp: Let_def)
  next
    case None
    show ?thesis
    proof (cases "snd hs")
      case Nil
      with r None show ?thesis
        unfolding getBlockForTimestamp_def hs_def[symmetric] by (auto simp: Let_def cacheSorted_def)
    next
      case (Cons ini rest)
      define sr where "sr = (if blockTimestamp ini > T then
                           searchBackwards rb (snd hs) T ini
                             (max (estimateBlocksElapsed (blockTimestamp ini - T) (11 / 10)) 1) 1
                         else Some (None, snd hs))"
      from r None Cons have r2: "(case sr of
                     None \<Rightarrow> None
                   | Some (Some err, blocks2) \<Rightarrow> Some (Inl err, blocks2)
                   | Some (None, blocks2) \<Rightarrow>
                       (let index = int (sortedIndexBy blocks2 T blockTimestamp)
                        in findBlock rb blocks2 (nthOpt blocks2 (index - 1))
                             (nthOpt blocks2 index) T)) = Some y"
        unfolding getBlockForTimestamp_def hs_def[symmetric] sr_def by (simp add: Let_def)
      then obtain eo blocks2 where sr: "sr = Some (eo, blocks2)" by (cases sr) auto
      have s2: "cacheSorted blocks2"
      proof (cases "blockTimestamp ini > T")
        case True
        with sr have "searchBackwards rb (snd hs) T ini
                             (max (estimateBlocksElapsed (blockTimestamp ini - T) (11 / 10)) 1) 1 = Some (eo, blocks2)"
          by (simp add: sr_def)
        from searchBackwards_sorted[OF this rb s1] show ?thesis by simp
      next
        case False
        with sr s1 show ?thesis by (simp add: sr_def)
      qed
      show ?thesis
      proof (cases eo)
        case (Some err)
        with r2 sr s2 show ?thesis by auto
      next
        case None
        with r2 sr have "findBlock rb blocks2 (nthOpt blocks2 (int (sortedIndexBy blocks2 T blockTimestamp) - 1))
                             (nthOpt blocks2 (int (sortedIndexBy blocks2 T blockTimestamp))) T = Some y"
          by (simp add: Let_def)
        from findBlock_sorted[OF this rb s2] show ?thesis .
      qed
    qed
  qed
qed

text \<open>
  Claim C3. From a cache sorted strictly ascending by block number, and with a node that
  answers a request by number with the block of that number, \<open>getLatestBlock\<close>,
  \<open>getBlock\<close> and \<open>getBlockForTimestamp\<close> (whatever it returns or throws) leave a cache
  sorted strictly ascending by block number; such a cache has one entry per block number.
\<close>

theorem cache_invariant_preserved:
  assumes "\<forall>n. number (rb (BlockNumber n)) = n" and "cacheSorted blocks"
  shows "cacheSorted (snd (getLatestBlock rb blocks)) \<and>
         cacheSorted (snd (getBlock rb blocks n)) \<and>
         (\<forall>r blocks'. getBlockForTimestamp rb blocks T = Some (r, blocks') \<longrightarrow> cacheSorted blocks') \<and>
         (\<forall>bs. cacheSorted bs \<longrightarrow> distinct (map number bs))"
proof -
  have "distinct (map number bs)" if "cacheSorted bs" for bs
    using that unfolding cacheSorted_def by (simp add: strict_sorted_iff)
  moreover have "cacheSorted blocks'" if "getBlockForTimestamp rb blocks T = Some (r, blocks')" for r blocks'
    using getBlockForTimestamp_sorted[OF that assms] by simp
  ultimately show ?thesis
    using getLatestBlock_sorted[OF assms(2), of rb] getBlock_sorted[OF assms(2), of rb n] assms(1)
    by blast
qed

section \<open>Theorems: the block locator\<close>

lemma chain_strict:
  "chainOk rb h \<Longrightarrow> 0 \<le> m \<Longrightarrow> m < n \<Longrightarrow> n \<le> h \<Longrightarrow>
   blockTimestamp (rb (BlockNumber m)) < blockTimestamp (rb (BlockNumber n))"
  by (simp add: chainOk_def)

lemma chain_mono:
  "chainOk rb h \<Longrightarrow> 0 \<le> m \<Longrightarrow> m \<le> n \<Longrightarrow> n \<le> h \<Longrightarrow>
   blockTimestamp (rb (BlockNumber m)) \<le> blockTimestamp (rb (BlockNumber n))"
  using chain_strict[of rb h m n] by (cases "m = n") auto

lemma chain_number: "chainOk rb h \<Longrightarrow> number (rb (BlockNumber n)) = n"
  by (simp add: chainOk_def)

lemma cacheOk_mem:
  "cacheOk rb h blocks \<Longrightarrow> b \<in> set blocks \<Longrightarrow>
   0 \<le> number b \<and> number b \<le> h \<and> rb (BlockNumber (number b)) = b"
  by (simp add: cacheOk_def)

lemma cacheOk_sorted: "cacheOk rb h blocks \<Longrightarrow> cacheSorted blocks"
  by (simp add: cacheOk_def)

lemma getBlock_total:
  assumes c: "chainOk rb h" and k: "cacheOk rb h blocks" and n: "0 \<le> n" "n \<le> h"
  shows "fst (getBlock rb blocks n) = rb (BlockNumber n) \<and>
         cacheOk rb h (snd (getBlock rb blocks n)) \<and>
         set (snd (getBlock rb blocks n)) = insert (rb (BlockNumber n)) (set blocks)"
proof -
  note s = cacheOk_sorted[OF k]
  from getBlock_cases[OF s, of n rb] show ?thesis
  proof
    assume "\<exists>b\<in>set blocks. number b = n \<and> getBlock rb blocks n = (b, blocks)"
    then obtain b where b: "b \<in> set blocks" "number b = n" "getBlock rb blocks n = (b, blocks)" by blast
    with cacheOk_mem[OF k b(1)] have "b = rb (BlockNumber n)" by simp
    with b k show ?thesis by auto
  next
    assume a: "(\<forall>b\<in>set blocks. number b \<noteq> n) \<and>
          getBlock rb blocks n = (rb (BlockNumber n), splice (sortedIndexBy blocks n number) (rb (BlockNumber n)) blocks)"
    have "cacheSorted (splice (sortedIndexBy blocks n number) (rb (BlockNumber n)) blocks)"
      using cacheSorted_insert[OF s chain_number[OF c, of n]] a by blast
    then have "cacheOk rb h (splice (sortedIndexBy blocks n number) (rb (BlockNumber n)) blocks)"
      using k n chain_number[OF c, of n] by (auto simp: cacheOk_def set_splice)
    with a show ?thesis by (simp add: set_splice)
  qed
qed

lemma getLatestBlock_total:
  assumes c: "chainOk rb h" and k: "cacheOk rb h blocks"
  shows "fst (getLatestBlock rb blocks) = rb (BlockNumber h) \<and>
         cacheOk rb h (snd (getLatestBlock rb blocks)) \<and>
         set (snd (getLatestBlock rb blocks)) = insert (rb (BlockNumber h)) (set blocks)"
proof -
  note s = cacheOk_sorted[OF k]
  from c have l: "rb Latest = rb (BlockNumber h)" and h0: "0 \<le> h" by (simp_all add: chainOk_def)
  have nl: "number (rb Latest) = h" using l chain_number[OF c, of h] by simp
  from getLatestBlock_cases[OF s, of rb] show ?thesis
  proof
    assume "\<exists>b\<in>set blocks. number b = number (rb Latest) \<and> getLatestBlock rb blocks = (b, blocks)"
    then obtain b where b: "b \<in> set blocks" "number b = h" "getLatestBlock rb blocks = (b, blocks)"
      using nl by auto
    with cacheOk_mem[OF k b(1)] have "b = rb (BlockNumber h)" by simp
    with b k show ?thesis by auto
  next
    assume a: "(\<forall>b\<in>set blocks. number b \<noteq> number (rb Latest)) \<and>
          getLatestBlock rb blocks =
            (rb Latest, splice (sortedIndexBy blocks (number (rb Latest)) number) (rb Latest) blocks)"
    have "cacheSorted (splice (sortedIndexBy blocks (number (rb Latest)) number) (rb Latest) blocks)"
      using cacheSorted_insert[OF s, of "rb Latest" "number (rb Latest)"] a by blast
    then have "cacheOk rb h (splice (sortedIndexBy blocks (number (rb Latest)) number) (rb Latest) blocks)"
      using k h0 nl l by (auto simp: cacheOk_def set_splice)
    with a l show ?thesis by (simp add: set_splice)
  qed
qed

lemma searchBackwards_total:
  assumes c: "chainOk rb h" and i: "0 \<le> number ini" "number ini \<le> h" and inc: "1 \<le> inc"
  shows "cacheOk rb h blocks \<Longrightarrow> 0 \<le> m \<Longrightarrow>
         \<exists>blocks'. searchBackwards rb blocks T ini inc m =
             Some (if blockTimestamp (rb (BlockNumber 0)) \<le> T then None
                   else Some (AssertionError ''timestamp is before block 0''), blocks') \<and>
           cacheOk rb h blocks' \<and> set blocks \<subseteq> set blocks' \<and>
           (blockTimestamp (rb (BlockNumber 0)) \<le> T \<longrightarrow> (\<exists>b\<in>set blocks'. blockTimestamp b \<le> T))"
proof (induction "nat (number ini - m * inc)" arbitrary: m blocks rule: less_induct)
  case less
  let ?bn = "max 0 (number ini - m * inc)"
  let ?r = "getBlock rb blocks ?bn"
  from less.prems(2) inc have mi: "0 \<le> m * inc" by simp
  then have bn: "0 \<le> ?bn" "?bn \<le> h" using i by auto
  note g = getBlock_total[OF c less.prems(1) bn]
  show ?case
  proof (cases "blockTimestamp (fst ?r) \<le> T")
    case True
    have "blockTimestamp (rb (BlockNumber 0)) \<le> blockTimestamp (rb (BlockNumber ?bn))"
      using chain_mono[OF c _ bn(1) bn(2)] by simp
    with True g have z: "blockTimestamp (rb (BlockNumber 0)) \<le> T" by simp
    have "searchBackwards rb blocks T ini inc m = Some (None, snd ?r)"
      using True by (subst searchBackwards.simps) (simp add: Let_def)
    moreover have "\<exists>b\<in>set (snd ?r). blockTimestamp b \<le> T" using g True by auto
    ultimately show ?thesis using g z by auto
  next
    case False
    show ?thesis
    proof (cases "?bn > 0")
      case bp: True
      then have pos: "0 < number ini - m * inc" by simp
      have lt: "nat (number ini - (m + 1) * inc) < nat (number ini - m * inc)"
        using pos inc by (simp add: algebra_simps)
      from less.hyps[OF lt _ , of "snd ?r"] g less.prems(2)
      obtain blocks' where r: "searchBackwards rb (snd ?r) T ini inc (m + 1) =
             Some (if blockTimestamp (rb (BlockNumber 0)) \<le> T then None
                   else Some (AssertionError ''timestamp is before block 0''), blocks')"
        and k': "cacheOk rb h blocks'" and sub: "set (snd ?r) \<subseteq> set blocks'"
        and ex: "blockTimestamp (rb (BlockNumber 0)) \<le> T \<longrightarrow> (\<exists>b\<in>set blocks'. blockTimestamp b \<le> T)"
        by auto
      have "searchBackwards rb blocks T ini inc m = searchBackwards rb (snd ?r) T ini inc (m + 1)"
        using False bp pos by (subst searchBackwards.simps) (simp add: Let_def)
      with r k' sub ex g show ?thesis by auto
    next
      case bz: False
      then have b0: "?bn = 0" using bn(1) by linarith
      with False g have z: "\<not> blockTimestamp (rb (BlockNumber 0)) \<le> T" by simp
      have "searchBackwards rb blocks T ini inc m =
              Some (Some (AssertionError ''timestamp is before block 0''), snd ?r)"
        using False bz by (subst searchBackwards.simps) (simp add: Let_def)
      with z g show ?thesis by auto
    qed
  qed
qed

lemma clamp_between: "lo \<le> hi \<Longrightarrow> lo \<le> clamp n lo hi \<and> clamp n lo hi \<le> hi"
  by (simp add: clamp_def Let_def)

lemma findBlock_total:
  assumes c: "chainOk rb h"
  shows "cacheOk rb h blocks \<Longrightarrow> 0 \<le> ns \<Longrightarrow> ns < ne \<Longrightarrow> ne \<le> h \<Longrightarrow>
         blockTimestamp (rb (BlockNumber ns)) < T \<Longrightarrow> T \<le> blockTimestamp (rb (BlockNumber ne)) \<Longrightarrow>
         \<exists>nB blocks'. findBlock rb blocks (Some (rb (BlockNumber ns))) (Some (rb (BlockNumber ne))) T =
             Some (Inr (rb (BlockNumber nB)), blocks') \<and>
           cacheOk rb h blocks' \<and> ns \<le> nB \<and> nB \<le> ne \<and>
           blockTimestamp (rb (BlockNumber nB)) \<le> T \<and>
           (nB = h \<or> T < blockTimestamp (rb (BlockNumber (nB + 1))))"
proof (induction "nat (ne - ns)" arbitrary: ns ne blocks rule: less_induct)
  case less
  let ?s = "rb (BlockNumber ns)" and ?e = "rb (BlockNumber ne)"
  note nn = chain_number[OF c]
  show ?case
  proof (cases "blockTimestamp ?e = T")
    case True
    have "findBlock rb blocks (Some ?s) (Some ?e) T = Some (Inr ?e, blocks)"
      using True by (subst findBlock.simps) simp
    moreover have "ne = h \<or> T < blockTimestamp (rb (BlockNumber (ne + 1)))"
    proof (cases "ne = h")
      case False
      with less.prems have "ne + 1 \<le> h" "0 \<le> ne" by auto
      from chain_strict[OF c this(2) _ this(1)] True show ?thesis by simp
    qed simp
    ultimately show ?thesis using less.prems True by (intro exI[of _ ne] exI[of _ blocks]) auto
  next
    case ne: False
    with less.prems have tl: "T < blockTimestamp ?e" by simp
    show ?thesis
    proof (cases "ne = ns + 1")
      case True
      have "findBlock rb blocks (Some ?s) (Some ?e) T = Some (Inr ?s, blocks)"
        using ne True by (subst findBlock.simps) (simp add: nn)
      moreover have "T < blockTimestamp (rb (BlockNumber (ns + 1)))" using tl True by simp
      ultimately show ?thesis using less.prems by (intro exI[of _ ns] exI[of _ blocks]) auto
    next
      case far: False
      define est where "est = number ?s + js_round ((of_int (T - blockTimestamp ?s) :: rat) /
           of_int (blockTimestamp ?e - blockTimestamp ?s) * of_int (number ?e - number ?s))"
      define k where "k = clamp est (ns + 1) (ne - 1)"
      let ?r = "getBlock rb blocks k"
      from far less.prems have "ns + 1 \<le> ne - 1" by simp
      from clamp_between[OF this, of est] have kb: "ns + 1 \<le> k" "k \<le> ne - 1" by (simp_all add: k_def)
      with less.prems have k0: "0 \<le> k" "k \<le> h" by auto
      note g = getBlock_total[OF c less.prems(1) k0]
      have step: "findBlock rb blocks (Some ?s) (Some ?e) T =
          (if blockTimestamp (fst ?r) < T then findBlock rb (snd ?r) (Some (fst ?r)) (Some ?e) T
           else findBlock rb (snd ?r) (Some ?s) (Some (fst ?r)) T)"
        using ne far tl less.prems(2,3,5)
        by (subst findBlock.simps) (simp add: nn Let_def k_def est_def)
      show ?thesis
      proof (cases "blockTimestamp (fst ?r) < T")
        case True
        have m: "nat (ne - k) < nat (ne - ns)" using kb less.prems by simp
        from less.hyps[OF m, of "snd ?r"] g k0 kb less.prems True
        obtain nB blocks' where
          "findBlock rb (snd ?r) (Some (rb (BlockNumber k))) (Some ?e) T = Some (Inr (rb (BlockNumber nB)), blocks')"
          "cacheOk rb h blocks'" "k \<le> nB" "nB \<le> ne" "blockTimestamp (rb (BlockNumber nB)) \<le> T"
          "nB = h \<or> T < blockTimestamp (rb (BlockNumber (nB + 1)))"
          by auto
        with step True g kb show ?thesis
          by (intro exI[of _ nB] exI[of _ blocks']) auto
      next
        case False
        have m: "nat (k - ns) < nat (ne - ns)" using kb less.prems by simp
        from less.hyps[OF m, of "snd ?r"] g k0 kb less.prems False
        obtain nB blocks' where
          "findBlock rb (snd ?r) (Some ?s) (Some (rb (BlockNumber k))) T = Some (Inr (rb (BlockNumber nB)), blocks')"
          "cacheOk rb h blocks'" "ns \<le> nB" "nB \<le> k" "blockTimestamp (rb (BlockNumber nB)) \<le> T"
          "nB = h \<or> T < blockTimestamp (rb (BlockNumber (nB + 1)))"
          by auto
        with step False g kb show ?thesis
          by (intro exI[of _ nB] exI[of _ blocks']) auto
      qed
    qed
  qed
qed

lemma cacheOk_ts_sorted:
  assumes c: "chainOk rb h" and k: "cacheOk rb h blocks"
  shows "sorted_wrt (\<lambda>a b. blockTimestamp a < blockTimestamp b) blocks"
proof -
  from k have "sorted_wrt (\<lambda>a b. number a < number b) blocks"
    by (simp add: cacheOk_def cacheSorted_def sorted_wrt_map)
  moreover have "blockTimestamp a < blockTimestamp b"
    if "a \<in> set blocks" "b \<in> set blocks" "number a < number b" for a b
    using chain_strict[OF c, of "number a" "number b"] cacheOk_mem[OF k that(1)] cacheOk_mem[OF k that(2)] that(3)
    by simp
  ultimately show ?thesis by (rule sorted_wrt_mono_rel[rotated])
qed

lemma chain_successor:
  assumes c: "chainOk rb h" and n: "0 \<le> n" "n \<le> h" and t: "blockTimestamp (rb (BlockNumber n)) \<le> T"
    and e: "blockTimestamp (rb (BlockNumber n)) = T"
  shows "n = h \<or> T < blockTimestamp (rb (BlockNumber (n + 1)))"
proof (cases "n = h")
  case False
  with n have "n + 1 \<le> h" by simp
  from chain_strict[OF c n(1) _ this] e show ?thesis by simp
qed simp

lemma narrow_total:
  assumes c: "chainOk rb h" and k: "cacheOk rb h blocks"
    and lo: "\<exists>b\<in>set blocks. blockTimestamp b \<le> T" and hi: "\<exists>b\<in>set blocks. T \<le> blockTimestamp b"
  shows "\<exists>nB blocks'.
           findBlock rb blocks (nthOpt blocks (int (sortedIndexBy blocks T blockTimestamp) - 1))
             (nthOpt blocks (int (sortedIndexBy blocks T blockTimestamp))) T =
             Some (Inr (rb (BlockNumber nB)), blocks') \<and>
           cacheOk rb h blocks' \<and> 0 \<le> nB \<and> nB \<le> h \<and>
           blockTimestamp (rb (BlockNumber nB)) \<le> T \<and>
           (nB = h \<or> T < blockTimestamp (rb (BlockNumber (nB + 1))))"
proof -
  let ?P = "\<lambda>b. blockTimestamp b < T"
  let ?i = "sortedIndexBy blocks T blockTimestamp"
  from hi have "\<not> (\<forall>b\<in>set blocks. ?P b)" by fastforce
  then have "dropWhile ?P blocks \<noteq> []" by (simp add: dropWhile_eq_Nil_conv)
  then obtain e es where d: "dropWhile ?P blocks = e # es" by (cases "dropWhile ?P blocks") auto
  have x: "blocks = takeWhile ?P blocks @ e # es" using d by (metis takeWhile_dropWhile_id)
  have ne: "nthOpt blocks (int ?i) = Some e" by (rule nthOpt_sortedIndexBy_Some[OF d])
  have te: "T \<le> blockTimestamp e" using hd_dropWhile[of ?P blocks] d by simp
  have em: "e \<in> set blocks" using x by (metis in_set_conv_decomp)
  note ek = cacheOk_mem[OF k em]
  note so = cacheOk_ts_sorted[OF c k]
  show ?thesis
  proof (cases "takeWhile ?P blocks = []")
    case True
    then have i0: "?i = 0" by (simp add: sortedIndexBy_def)
    have ns: "nthOpt blocks (int ?i - 1) = None" using i0 by (simp add: nthOpt_def)
    from x True have b: "blocks = e # es" by simp
    with so have "\<forall>b\<in>set es. blockTimestamp e < blockTimestamp b" by (metis sorted_wrt.simps(2))
    with b have "\<forall>b\<in>set blocks. blockTimestamp e \<le> blockTimestamp b" by (metis order_refl less_imp_le set_ConsD)
    with lo have "blockTimestamp e \<le> T" by fastforce
    with te have eq: "blockTimestamp e = T" by simp
    have "findBlock rb blocks None (Some e) T = Some (Inr e, blocks)"
      using eq by (subst findBlock.simps) simp
    moreover have "number e = h \<or> T < blockTimestamp (rb (BlockNumber (number e + 1)))"
      using chain_successor[OF c, of "number e" T] ek eq by simp
    ultimately show ?thesis using ns ne ek eq k
      by (intro exI[of _ "number e"] exI[of _ blocks]) simp
  next
    case False
    then obtain ss s where tw: "takeWhile ?P blocks = ss @ [s]"
      by (cases "takeWhile ?P blocks" rule: rev_cases) auto
    have il: "?i = Suc (length ss)" using tw by (simp add: sortedIndexBy_def)
    have x2: "blocks = ss @ s # e # es" using x tw by simp
    have "blocks ! length ss = s" by (subst x2) simp
    moreover have "length ss < length blocks" by (subst x2) simp
    ultimately have ns: "nthOpt blocks (int ?i - 1) = Some s" using il by (simp add: nthOpt_def)
    have "s \<in> set (takeWhile ?P blocks)" using tw by simp
    then have ts: "blockTimestamp s < T" by (auto dest: set_takeWhileD)
    have sm: "s \<in> set blocks" by (subst x2) simp
    note sk = cacheOk_mem[OF k sm]
    from k have "sorted_wrt (<) (map number blocks)" by (simp add: cacheOk_def cacheSorted_def)
    then have nse: "number s < number e" by (subst (asm) x2) (simp add: sorted_wrt_append)
    from findBlock_total[OF c k, of "number s" "number e" T] sk ek nse ts te
    obtain nB blocks' where
      "findBlock rb blocks (Some s) (Some e) T = Some (Inr (rb (BlockNumber nB)), blocks')"
      "cacheOk rb h blocks'" "number s \<le> nB" "nB \<le> number e"
      "blockTimestamp (rb (BlockNumber nB)) \<le> T" "nB = h \<or> T < blockTimestamp (rb (BlockNumber (nB + 1)))"
      by auto
    with ns ne sk ek show ?thesis
      by (intro exI[of _ nB] exI[of _ blocks']) auto
  qed
qed

lemma headStep_total:
  fixes T :: int
  assumes c: "chainOk rb h" and k: "cacheOk rb h blocks"
  defines "hs \<equiv> (if blocks = [] \<or> blockTimestamp (last blocks) < T then
               (let r = getLatestBlock rb blocks
                in (if T \<ge> blockTimestamp (fst r) then Some (fst r) else None, snd r))
             else (None, blocks))"
  shows "cacheOk rb h (snd hs) \<and> set blocks \<subseteq> set (snd hs) \<and>
         ((fst hs = Some (rb (BlockNumber h)) \<and> blockTimestamp (rb (BlockNumber h)) \<le> T) \<or>
          (fst hs = None \<and> (\<exists>b\<in>set (snd hs). T \<le> blockTimestamp b)))"
proof (cases "blocks = [] \<or> blockTimestamp (last blocks) < T")
  case True
  note g = getLatestBlock_total[OF c k]
  show ?thesis
  proof (cases "T \<ge> blockTimestamp (rb (BlockNumber h))")
    case t: True
    with True g show ?thesis by (auto simp: hs_def Let_def)
  next
    case f: False
    then have "\<exists>b\<in>set (snd (getLatestBlock rb blocks)). T \<le> blockTimestamp b"
      using g by auto
    with True f g show ?thesis by (auto simp: hs_def Let_def)
  qed
next
  case False
  then have "blocks \<noteq> []" "T \<le> blockTimestamp (last blocks)" by auto
  then have "\<exists>b\<in>set blocks. T \<le> blockTimestamp b" using last_in_set by blast
  with False k show ?thesis by (auto simp: hs_def)
qed

lemma estimate_step: "1 \<le> max (estimateBlocksElapsed d (11 / 10)) 1"
  by simp

text \<open>
  On a chain whose timestamps strictly increase, from a cache made of chain blocks, and for
  a timestamp not before block 0, the locator returns: the head step, the backward search
  and the narrowing all end, and the block returned is the last one not after the
  timestamp.
\<close>

lemma getBlockForTimestamp_total:
  assumes c: "chainOk rb h" and k: "cacheOk rb h blocks"
    and g: "blockTimestamp (rb (BlockNumber 0)) \<le> T"
  shows "\<exists>B blocks'. getBlockForTimestamp rb blocks T = Some (Inr B, blocks') \<and>
           cacheOk rb h blocks' \<and> 0 \<le> number B \<and> number B \<le> h \<and>
           B = rb (BlockNumber (number B)) \<and> blockTimestamp B \<le> T \<and>
           (number B = h \<or> T < blockTimestamp (rb (BlockNumber (number B + 1))))"
proof -
  define hs where "hs = (if blocks = [] \<or> blockTimestamp (last blocks) < T then
               (let r = getLatestBlock rb blocks
                in (if T \<ge> blockTimestamp (fst r) then Some (fst r) else None, snd r))
             else (None, blocks))"
  note h = headStep_total[OF c k, of T, folded hs_def]
  from c have h0: "0 \<le> h" by (simp add: chainOk_def)
  note nn = chain_number[OF c]
  from h have k1: "cacheOk rb h (snd hs)" by simp
  from h have "(fst hs = Some (rb (BlockNumber h)) \<and> blockTimestamp (rb (BlockNumber h)) \<le> T) \<or>
          (fst hs = None \<and> (\<exists>b\<in>set (snd hs). T \<le> blockTimestamp b))" by simp
  then consider
    (head) "fst hs = Some (rb (BlockNumber h))" "blockTimestamp (rb (BlockNumber h)) \<le> T"
    | (search) "fst hs = None" "\<exists>b\<in>set (snd hs). T \<le> blockTimestamp b" by fast
  then show ?thesis
  proof cases
    case head
    then have "getBlockForTimestamp rb blocks T = Some (Inr (rb (BlockNumber h)), snd hs)"
      unfolding getBlockForTimestamp_def hs_def[symmetric] by (simp add: Let_def)
    with head k1 h0 show ?thesis
      by (intro exI[of _ "rb (BlockNumber h)"] exI[of _ "snd hs"]) (simp add: nn)
  next
    case search
    then obtain ini rest where b1: "snd hs = ini # rest" by (cases "snd hs") auto
    then have im: "ini \<in> set (snd hs)" by simp
    note ik = cacheOk_mem[OF k1 im]
    define sr where "sr = (if blockTimestamp ini > T then
                           searchBackwards rb (snd hs) T ini
                             (max (estimateBlocksElapsed (blockTimestamp ini - T) (11 / 10)) 1) 1
                         else Some (None, snd hs))"
    have "\<exists>blocks2. sr = Some (None, blocks2) \<and> cacheOk rb h blocks2 \<and>
            (\<exists>b\<in>set blocks2. blockTimestamp b \<le> T) \<and> (\<exists>b\<in>set blocks2. T \<le> blockTimestamp b)"
    proof (cases "blockTimestamp ini > T")
      case True
      from searchBackwards_total[of rb h ini "max (estimateBlocksElapsed (blockTimestamp ini - T) (11 / 10)) 1"
          "snd hs" 1 T, OF c _ _ estimate_step k1] ik g
      obtain blocks2 where "searchBackwards rb (snd hs) T ini
            (max (estimateBlocksElapsed (blockTimestamp ini - T) (11 / 10)) 1) 1 = Some (None, blocks2)"
        "cacheOk rb h blocks2" "set (snd hs) \<subseteq> set blocks2" "\<exists>b\<in>set blocks2. blockTimestamp b \<le> T"
        by auto
      with search(2) True show ?thesis unfolding sr_def by (intro exI[of _ blocks2]) auto
    next
      case False
      then have "blockTimestamp ini \<le> T" by simp
      with im have "\<exists>b\<in>set (snd hs). blockTimestamp b \<le> T" by blast
      with False search(2) k1 show ?thesis unfolding sr_def by (intro exI[of _ "snd hs"]) simp
    qed
    then obtain blocks2 where sr: "sr = Some (None, blocks2)" and k2: "cacheOk rb h blocks2"
      and lo: "\<exists>b\<in>set blocks2. blockTimestamp b \<le> T" and hi: "\<exists>b\<in>set blocks2. T \<le> blockTimestamp b"
      by blast
    from narrow_total[OF c k2 lo hi] obtain nB blocks' where
      f: "findBlock rb blocks2 (nthOpt blocks2 (int (sortedIndexBy blocks2 T blockTimestamp) - 1))
             (nthOpt blocks2 (int (sortedIndexBy blocks2 T blockTimestamp))) T =
             Some (Inr (rb (BlockNumber nB)), blocks')"
      and r: "cacheOk rb h blocks'" "0 \<le> nB" "nB \<le> h" "blockTimestamp (rb (BlockNumber nB)) \<le> T"
        "nB = h \<or> T < blockTimestamp (rb (BlockNumber (nB + 1)))" by blast
    have "getBlockForTimestamp rb blocks T = Some (Inr (rb (BlockNumber nB)), blocks')"
      unfolding getBlockForTimestamp_def hs_def[symmetric]
      using search(1) b1 sr f by (simp add: Let_def sr_def[symmetric])
    with r show ?thesis
      by (intro exI[of _ "rb (BlockNumber nB)"] exI[of _ blocks']) (simp add: nn)
  qed
qed

text \<open>Before the timestamp of block 0 the backward search reaches block 0 and the assertion throws.\<close>

lemma getBlockForTimestamp_before_genesis:
  assumes c: "chainOk rb h" and k: "cacheOk rb h blocks"
    and g: "T < blockTimestamp (rb (BlockNumber 0))"
  shows "\<exists>blocks'. getBlockForTimestamp rb blocks T =
           Some (Inl (AssertionError ''timestamp is before block 0''), blocks') \<and> cacheOk rb h blocks'"
proof -
  define hs where "hs = (if blocks = [] \<or> blockTimestamp (last blocks) < T then
               (let r = getLatestBlock rb blocks
                in (if T \<ge> blockTimestamp (fst r) then Some (fst r) else None, snd r))
             else (None, blocks))"
  note h = headStep_total[OF c k, of T, folded hs_def]
  from c have h0: "0 \<le> h" by (simp add: chainOk_def)
  have all: "T < blockTimestamp (rb (BlockNumber n))" if "0 \<le> n" "n \<le> h" for n
    using chain_mono[of rb h 0 n, OF c _ that] g by simp
  from h have k1: "cacheOk rb h (snd hs)" by simp
  from h all[OF h0] have n1: "fst hs = None" and ex: "\<exists>b\<in>set (snd hs). T \<le> blockTimestamp b" by auto
  then obtain ini rest where b1: "snd hs = ini # rest" by (cases "snd hs") auto
  then have im: "ini \<in> set (snd hs)" by simp
  note ik = cacheOk_mem[OF k1 im]
  from all[of "number ini"] ik have it: "T < blockTimestamp ini" by simp
  from searchBackwards_total[of rb h ini "max (estimateBlocksElapsed (blockTimestamp ini - T) (11 / 10)) 1"
          "snd hs" 1 T, OF c _ _ estimate_step k1] ik g
  obtain blocks2 where "searchBackwards rb (snd hs) T ini
            (max (estimateBlocksElapsed (blockTimestamp ini - T) (11 / 10)) 1) 1 =
            Some (Some (AssertionError ''timestamp is before block 0''), blocks2)"
        "cacheOk rb h blocks2"
    by auto
  then show ?thesis
    unfolding getBlockForTimestamp_def hs_def[symmetric]
    using n1 b1 it by (simp add: Let_def)
qed

lemma reachable_cacheOk:
  assumes c: "chainOk rb h" and r: "reachable rb h blocks"
  shows "cacheOk rb h blocks"
  using r
proof (induction rule: reachable.induct)
  case initial
  show ?case by (simp add: cacheOk_def cacheSorted_def)
next
  case (by_getBlock blocks n)
  then show ?case using getBlock_total[OF c, of blocks n] by simp
next
  case (by_getLatestBlock blocks)
  then show ?case using getLatestBlock_total[OF c, of blocks] by simp
next
  case (by_getBlockForTimestamp blocks T r blocks')
  show ?case
  proof (cases "blockTimestamp (rb (BlockNumber 0)) \<le> T")
    case True
    from getBlockForTimestamp_total[OF c by_getBlockForTimestamp.IH True] by_getBlockForTimestamp.hyps(2)
    show ?thesis by auto
  next
    case False
    then have "T < blockTimestamp (rb (BlockNumber 0))" by simp
    from getBlockForTimestamp_before_genesis[OF c by_getBlockForTimestamp.IH this]
      by_getBlockForTimestamp.hyps(2)
    show ?thesis by auto
  qed
qed

text \<open>
  Claim C1, amended to timestamps at or after block 0. On a chain whose timestamps strictly
  increase with the block number, from every cache state reachable by the locator's
  operations, and for every \<open>T\<close> not before the timestamp of block 0,
  \<open>getBlockForTimestamp\<close> returns a chain block \<open>B\<close> with \<open>B.timestamp \<le> T\<close> that is the
  head or whose successor by number has a timestamp after \<open>T\<close>.
\<close>

theorem getBlockForTimestamp_supremum:
  assumes c: "chainOk rb h" and r: "reachable rb h blocks"
    and g: "blockTimestamp (rb (BlockNumber 0)) \<le> T"
  shows "\<exists>B blocks'. getBlockForTimestamp rb blocks T = Some (Inr B, blocks') \<and>
           reachable rb h blocks' \<and> 0 \<le> number B \<and> number B \<le> h \<and>
           B = rb (BlockNumber (number B)) \<and> blockTimestamp B \<le> T \<and>
           (number B = h \<or> T < blockTimestamp (rb (BlockNumber (number B + 1))))"
proof -
  from getBlockForTimestamp_total[OF c reachable_cacheOk[OF c r] g] obtain B blocks' where
    x: "getBlockForTimestamp rb blocks T = Some (Inr B, blocks')"
    and y: "0 \<le> number B" "number B \<le> h" "B = rb (BlockNumber (number B))" "blockTimestamp B \<le> T"
      "number B = h \<or> T < blockTimestamp (rb (BlockNumber (number B + 1)))" by blast
  from r x have "reachable rb h blocks'" by (rule by_getBlockForTimestamp)
  with x y show ?thesis by blast
qed

lemma demoChain_ok: "chainOk demoChain 20"
  by (simp add: chainOk_def demoChain_def)

text \<open>On the example chain (block \<open>n\<close> at \<open>1000 + 13 * n\<close>) the block for 1100 is block 7.\<close>

theorem getBlockForTimestamp_supremum_witness:
  "\<exists>B blocks'. getBlockForTimestamp demoChain [] 1100 = Some (Inr B, blocks') \<and>
     number B = 7 \<and> blockTimestamp B = 1091 \<and> reachable demoChain 20 blocks'"
proof -
  have k: "reachable demoChain 20 []" by (rule reachable.initial)
  have g: "blockTimestamp (demoChain (BlockNumber 0)) \<le> 1100" by (simp add: demoChain_def)
  from getBlockForTimestamp_supremum[OF demoChain_ok k g] obtain B blocks' where
    r: "getBlockForTimestamp demoChain [] 1100 = Some (Inr B, blocks')" "reachable demoChain 20 blocks'"
    and n: "0 \<le> number B" "number B \<le> 20" and b: "B = demoChain (BlockNumber (number B))"
    and t: "blockTimestamp B \<le> 1100"
    and s: "number B = 20 \<or> 1100 < blockTimestamp (demoChain (BlockNumber (number B + 1)))"
    by blast
  have "blockTimestamp (demoChain (BlockNumber n)) = 1000 + 13 * n" for n
    by (simp add: demoChain_def)
  with arg_cong[OF b, of blockTimestamp] have bt: "blockTimestamp B = 1000 + 13 * number B"
    by simp
  with t s have "number B = 7" by (auto simp: demoChain_def)
  with bt r show ?thesis by auto
qed

text \<open>Timestamp 900 is before block 0 of the example chain: no block is returned.\<close>

theorem getBlockForTimestamp_genesis_counterexample:
  "\<not> (\<exists>B blocks'. getBlockForTimestamp demoChain [] 900 = Some (Inr B, blocks'))"
proof -
  have "getBlockForTimestamp demoChain [] 900 =
          Some (Inl (AssertionError ''timestamp is before block 0''),
                [\<lparr>number = 0, blockTimestamp = 1000\<rparr>, \<lparr>number = 20, blockTimestamp = 1260\<rparr>])"
    by code_simp
  then show ?thesis by simp
qed

text \<open>A cache holding blocks 3 and 9 of the example chain; block 5 is inserted between them.\<close>

theorem cache_invariant_preserved_witness:
  "cacheSorted (snd (getLatestBlock demoChain [demoChain (BlockNumber 3), demoChain (BlockNumber 9)])) \<and>
   cacheSorted (snd (getBlock demoChain [demoChain (BlockNumber 3), demoChain (BlockNumber 9)] 5)) \<and>
   snd (getBlock demoChain [demoChain (BlockNumber 3), demoChain (BlockNumber 9)] 5) =
     [demoChain (BlockNumber 3), demoChain (BlockNumber 5), demoChain (BlockNumber 9)] \<and>
   (\<exists>r blocks'. getBlockForTimestamp demoChain [demoChain (BlockNumber 3), demoChain (BlockNumber 9)] 1100 =
       Some (r, blocks') \<and> cacheSorted blocks' \<and> distinct (map number blocks'))"
proof -
  let ?bs = "[demoChain (BlockNumber 3), demoChain (BlockNumber 9)]"
  have n: "\<forall>n. number (demoChain (BlockNumber n)) = n" by (simp add: demoChain_def)
  have s: "cacheSorted ?bs" by (simp add: cacheSorted_def demoChain_def)
  note t = cache_invariant_preserved[OF n s, of 5 1100]
  have e: "snd (getBlock demoChain ?bs 5) =
     [demoChain (BlockNumber 3), demoChain (BlockNumber 5), demoChain (BlockNumber 9)]"
    by code_simp
  have "getBlockForTimestamp demoChain ?bs 1100 =
          Some (Inr \<lparr>number = 7, blockTimestamp = 1091\<rparr>,
                [\<lparr>number = 3, blockTimestamp = 1039\<rparr>, \<lparr>number = 7, blockTimestamp = 1091\<rparr>,
                 \<lparr>number = 8, blockTimestamp = 1104\<rparr>, \<lparr>number = 9, blockTimestamp = 1117\<rparr>])"
    by code_simp
  with t e show ?thesis by blast
qed

section \<open>Theorems: the aggregate series\<close>

lemma totalItem_sel [simp]:
  "timestamp (totalItem t v) = Some t" "itemValue (totalItem t v) = v"
  "(totalItem t v)\<lparr>itemValue := w\<rparr> = totalItem t w"
  by (simp_all add: totalItem_def emptyItem_def)

lemma walk_groupTotals:
  assumes "\<forall>c\<in>set cs. combinedValue c \<noteq> None \<and> previousValue c \<noteq> None"
  shows "foldl totalStep (pre @ [totalItem t (Some s)]) cs = pre @ groupTotals t s cs"
  using assms
proof (induction cs arbitrary: pre t s)
  case Nil
  show ?case by simp
next
  case (Cons c cs)
  from Cons.prems obtain v p where vp: "combinedValue c = Some v" "previousValue c = Some p" by auto
  then have d: "deltaOf c = v - p" by (simp add: deltaOf_def)
  from Cons.prems have rest: "\<forall>c\<in>set cs. combinedValue c \<noteq> None \<and> previousValue c \<noteq> None" by simp
  show ?case
  proof (cases "t < combinedTimestamp c")
    case True
    then have "totalStep (pre @ [totalItem t (Some s)]) c =
        (pre @ [totalItem t (Some s)]) @ [totalItem (combinedTimestamp c) (Some (s + deltaOf c))]"
      using vp d by (simp add: totalStep_def js_lt_def js_add_def js_sub_def add_diff_eq)
    then show ?thesis
      using Cons.IH[OF rest, of "pre @ [totalItem t (Some s)]" "combinedTimestamp c" "s + deltaOf c"] True
      by simp
  next
    case False
    then have "totalStep (pre @ [totalItem t (Some s)]) c = pre @ [totalItem t (Some (s + deltaOf c))]"
      using vp d by (simp add: totalStep_def js_lt_def js_add_def js_sub_def)
    then show ?thesis
      using Cons.IH[OF rest, of pre t "s + deltaOf c"] False by simp
  qed
qed

lemma deltaSum_Cons_ge:
  "combinedTimestamp c \<le> T \<Longrightarrow> deltaSum T (c # cs) = deltaOf c + deltaSum T cs"
  by (simp add: deltaSum_def)

lemma deltaSum_none:
  "\<forall>c\<in>set cs. T < combinedTimestamp c \<Longrightarrow> deltaSum T cs = 0"
proof -
  assume "\<forall>c\<in>set cs. T < combinedTimestamp c"
  then have "filter (\<lambda>c. combinedTimestamp c \<le> T) cs = []"
    by (simp add: filter_empty_conv not_le)
  then show ?thesis by (simp add: deltaSum_def)
qed

lemma groupTotals_deltaSum:
  assumes "sorted (map combinedTimestamp cs)" and "\<forall>c\<in>set cs. t \<le> combinedTimestamp c"
  shows "groupTotals t s cs =
           map (\<lambda>T. totalItem T (Some (s + deltaSum T cs))) (remdups_adj (t # map combinedTimestamp cs))"
  using assms
proof (induction cs arbitrary: t s)
  case Nil
  show ?case by (simp add: deltaSum_def)
next
  case (Cons c cs)
  let ?tc = "combinedTimestamp c"
  from Cons.prems have so: "sorted (map combinedTimestamp cs)"
    and ge: "\<forall>d\<in>set cs. ?tc \<le> combinedTimestamp d" and tc: "t \<le> ?tc" by auto
  have shift: "map (\<lambda>T. totalItem T (Some (s + deltaOf c + deltaSum T cs))) (remdups_adj (u # map combinedTimestamp cs)) =
               map (\<lambda>T. totalItem T (Some (s + deltaSum T (c # cs)))) (remdups_adj (u # map combinedTimestamp cs))"
    if u: "?tc \<le> u" "\<forall>d\<in>set cs. u \<le> combinedTimestamp d" for u
  proof (rule map_cong[OF refl])
    fix T assume "T \<in> set (remdups_adj (u # map combinedTimestamp cs))"
    then have "T \<in> set (u # map combinedTimestamp cs)" by (simp only: remdups_adj_set)
    with u have "?tc \<le> T" by auto
    then show "totalItem T (Some (s + deltaOf c + deltaSum T cs)) = totalItem T (Some (s + deltaSum T (c # cs)))"
      by (simp add: deltaSum_Cons_ge add.assoc)
  qed
  show ?case
  proof (cases "t < ?tc")
    case True
    have "\<forall>d\<in>set (c # cs). t < combinedTimestamp d" using True ge by auto
    then have z: "deltaSum t (c # cs) = 0" by (rule deltaSum_none)
    have "groupTotals t s (c # cs) = totalItem t (Some s) # groupTotals ?tc (s + deltaOf c) cs"
      using True by simp
    also have "groupTotals ?tc (s + deltaOf c) cs =
        map (\<lambda>T. totalItem T (Some (s + deltaOf c + deltaSum T cs))) (remdups_adj (?tc # map combinedTimestamp cs))"
      by (rule Cons.IH[OF so ge])
    also have "\<dots> = map (\<lambda>T. totalItem T (Some (s + deltaSum T (c # cs)))) (remdups_adj (?tc # map combinedTimestamp cs))"
      by (rule shift) (use ge in auto)
    finally show ?thesis using True z by simp
  next
    case False
    with tc have eq: "?tc = t" by simp
    have "groupTotals t s (c # cs) = groupTotals t (s + deltaOf c) cs" using False by simp
    also have "\<dots> = map (\<lambda>T. totalItem T (Some (s + deltaOf c + deltaSum T cs))) (remdups_adj (t # map combinedTimestamp cs))"
      by (rule Cons.IH[OF so]) (use ge eq in auto)
    also have "\<dots> = map (\<lambda>T. totalItem T (Some (s + deltaSum T (c # cs)))) (remdups_adj (t # map combinedTimestamp cs))"
      by (rule shift) (use ge eq in auto)
    finally show ?thesis using eq by simp
  qed
qed

lemma walk_deltaSum:
  assumes so: "sorted (map combinedTimestamp cs)"
    and vp: "\<forall>c\<in>set cs. combinedValue c \<noteq> None \<and> previousValue c \<noteq> None"
    and hd0: "cs \<noteq> [] \<longrightarrow> previousValue (hd cs) = Some 0"
  shows "foldl totalStep [] cs =
           map (\<lambda>T. totalItem T (Some (deltaSum T cs))) (remdups_adj (map combinedTimestamp cs))"
proof (cases cs)
  case Nil
  then show ?thesis by simp
next
  case (Cons c rest)
  let ?tc = "combinedTimestamp c"
  from vp Cons obtain v where v: "combinedValue c = Some v" by auto
  from hd0 Cons have p: "previousValue c = Some 0" by simp
  from v p have d: "deltaOf c = v" by (simp add: deltaOf_def)
  from so Cons have sr: "sorted (map combinedTimestamp rest)"
    and ge: "\<forall>d\<in>set rest. ?tc \<le> combinedTimestamp d" by auto
  from vp Cons have vr: "\<forall>c\<in>set rest. combinedValue c \<noteq> None \<and> previousValue c \<noteq> None" by simp
  have "foldl totalStep [] cs = foldl totalStep ([] @ [totalItem ?tc (Some v)]) rest"
    using Cons v by (simp add: totalStep_def lastItem_def)
  also have "\<dots> = groupTotals ?tc v rest"
    using walk_groupTotals[OF vr, of "[]" ?tc v] by simp
  also have "\<dots> = map (\<lambda>T. totalItem T (Some (v + deltaSum T rest))) (remdups_adj (?tc # map combinedTimestamp rest))"
    by (rule groupTotals_deltaSum[OF sr ge])
  also have "\<dots> = map (\<lambda>T. totalItem T (Some (deltaSum T (c # rest)))) (remdups_adj (?tc # map combinedTimestamp rest))"
  proof (rule map_cong[OF refl])
    fix T assume "T \<in> set (remdups_adj (?tc # map combinedTimestamp rest))"
    then have "T \<in> set (?tc # map combinedTimestamp rest)" by (simp only: remdups_adj_set)
    with ge have "?tc \<le> T" by auto
    then show "totalItem T (Some (v + deltaSum T rest)) = totalItem T (Some (deltaSum T (c # rest)))"
      by (simp add: deltaSum_Cons_ge d)
  qed
  finally show ?thesis using Cons by simp
qed

lemma dominated_mono: "dominated S cs \<Longrightarrow> S \<subseteq> S' \<Longrightarrow> dominated S' cs"
proof (induction cs arbitrary: S S')
  case Nil
  show ?case by simp
next
  case (Cons c cs)
  from Cons.prems have "insert (combinedTimestamp c) S \<subseteq> insert (combinedTimestamp c) S'" by auto
  with Cons.prems Cons.IH[of "insert (combinedTimestamp c) S" "insert (combinedTimestamp c) S'"]
  show ?case by auto
qed

lemma dominated_append:
  "dominated S (as @ bs) = (dominated S as \<and> dominated (S \<union> combinedTimestamp ` set as) bs)"
proof (induction as arbitrary: S)
  case Nil
  show ?case by simp
next
  case (Cons a as)
  have "insert (combinedTimestamp a) S \<union> combinedTimestamp ` set as =
        S \<union> combinedTimestamp ` set (a # as)" by auto
  with Cons.IH[of "insert (combinedTimestamp a) S"] show ?case by simp
qed

text \<open>An entry whose timestamp counts as at least the range start is an entry in the range.\<close>

lemma js_ge_in_range:
  assumes "timestamp b = Some 0 \<longrightarrow> 0 < fromTimestamp"
  shows "js_ge (timestamp b) (Some fromTimestamp) =
           (\<exists>t. timestamp b = Some t \<and> \<not> (t = 0 \<or> t < fromTimestamp))"
  using assms by (cases "timestamp b") (auto simp: js_ge_def)

lemma collectToken_dominated:
  assumes "sorted (map timestamp xs)"
    and "\<forall>b\<in>set xs. timestamp b = Some 0 \<longrightarrow> 0 < fromTimestamp"
    and "previousValueOf fromTimestamp previous = Some 0 \<or>
         (\<exists>t\<in>S. \<forall>b\<in>set xs. Some t \<le> timestamp b)"
  shows "dominated S (collectToken a fromTimestamp previous xs)"
  using assms
proof (induction xs arbitrary: previous S)
  case Nil
  show ?case by simp
next
  case (Cons b bs)
  from Cons.prems(1) have so: "sorted (map timestamp bs)"
    and le: "\<forall>d\<in>set bs. timestamp b \<le> timestamp d" by auto
  from Cons.prems(2) have z: "\<forall>b\<in>set bs. timestamp b = Some 0 \<longrightarrow> 0 < fromTimestamp" by simp
  note r = js_ge_in_range[of b fromTimestamp]
  show ?case
  proof (cases "\<exists>t. timestamp b = Some t \<and> \<not> (t = 0 \<or> t < fromTimestamp)")
    case True
    then obtain t where t: "timestamp b = Some t" "\<not> (t = 0 \<or> t < fromTimestamp)" by blast
    have "previousValueOf fromTimestamp previous = Some 0 \<or> (\<exists>u\<in>S. u \<le> t)"
      using Cons.prems(3) t by auto
    moreover have "dominated (insert t S) (collectToken a fromTimestamp (Some b) bs)"
    proof (rule Cons.IH[OF so z])
      have "\<forall>d\<in>set bs. Some t \<le> timestamp d" using le t by simp
      then show "previousValueOf fromTimestamp (Some b) = Some 0 \<or>
         (\<exists>u\<in>insert t S. \<forall>d\<in>set bs. Some u \<le> timestamp d)" by blast
    qed
    ultimately show ?thesis using t by simp
  next
    case False
    then have "\<not> js_ge (timestamp b) (Some fromTimestamp)"
      using r Cons.prems(2) by simp
    then have "previousValueOf fromTimestamp (Some b) = Some 0" by (simp add: previousValueOf_def)
    then have "dominated S (collectToken a fromTimestamp (Some b) bs)"
      by (intro Cons.IH[OF so z]) simp
    moreover have "(case timestamp b of None \<Rightarrow> []
        | Some t \<Rightarrow> if t = 0 \<or> t < fromTimestamp then []
            else [\<lparr>tokenAddress = a, combinedTimestamp = t, combinedValue = itemValue b,
                   previousValue = previousValueOf fromTimestamp previous\<rparr>]) = []"
      using False by (cases "timestamp b") auto
    ultimately show ?thesis by simp
  qed
qed

lemma combinedBalances_dominated:
  assumes "\<forall>(a, items)\<in>set balances. sorted (map timestamp items)"
    and "\<forall>(a, items)\<in>set balances. \<forall>b\<in>set items. timestamp b = Some 0 \<longrightarrow> 0 < fromTimestamp"
  shows "dominated {} (combinedBalances balances fromTimestamp)"
  using assms
proof (induction balances)
  case Nil
  show ?case by (simp add: combinedBalances_def)
next
  case (Cons e balances)
  obtain a items where e: "e = (a, items)" by (cases e)
  from Cons.prems e have "dominated {} (collectToken a fromTimestamp None items)"
    by (intro collectToken_dominated) (auto simp: previousValueOf_def)
  moreover from Cons have "dominated {} (combinedBalances balances fromTimestamp)" by simp
  then have "dominated ({} \<union> combinedTimestamp ` set (collectToken a fromTimestamp None items))
      (combinedBalances balances fromTimestamp)"
    by (rule dominated_mono) simp
  ultimately show ?case
    using e by (simp add: combinedBalances_def dominated_append)
qed

lemma hd_sort_key_first_min:
  assumes "xs \<noteq> []"
  shows "\<exists>us ds. xs = us @ hd (sort_key f xs) # ds \<and> (\<forall>u\<in>set us. f (hd (sort_key f xs)) < f u)"
proof -
  let ?s = "sort_key f xs"
  from assms have sne: "?s \<noteq> []" by (metis length_0_conv length_sort)
  then obtain c rest where s: "?s = c # rest" by (cases ?s) auto
  let ?m = "f c"
  have "sorted (map f ?s)" by (rule sorted_sort_key)
  with s have "\<forall>y\<in>set ?s. ?m \<le> f y" by auto
  then have mn: "\<forall>y\<in>set xs. ?m \<le> f y" by simp
  have "filter (\<lambda>y. f y = ?m) xs = filter (\<lambda>y. f y = ?m) ?s" by (rule sort_key_stable[symmetric])
  also have "\<dots> = c # filter (\<lambda>y. f y = ?m) rest" using s by simp
  finally have fl: "filter (\<lambda>y. f y = ?m) xs = c # filter (\<lambda>y. f y = ?m) rest" .
  let ?us = "takeWhile (\<lambda>y. f y \<noteq> ?m) xs" and ?dw = "dropWhile (\<lambda>y. f y \<noteq> ?m) xs"
  have x: "xs = ?us @ ?dw" by simp
  have "filter (\<lambda>y. f y = ?m) ?us = []"
    by (simp only: filter_empty_conv) (auto dest: set_takeWhileD)
  with fl have fd: "filter (\<lambda>y. f y = ?m) ?dw = c # filter (\<lambda>y. f y = ?m) rest"
    by (metis x filter_append append_Nil)
  then have "?dw \<noteq> []" by (metis filter.simps(1) list.distinct(1))
  then obtain d ds where d: "?dw = d # ds" by (cases ?dw) auto
  have "f d = ?m" using hd_dropWhile[of "\<lambda>y. f y \<noteq> ?m" xs] d by simp
  with fd d have "d = c" by simp
  with x d have "xs = ?us @ c # ds" by simp
  moreover have "\<forall>u\<in>set ?us. ?m < f u"
  proof
    fix u assume u: "u \<in> set ?us"
    then have "f u \<noteq> ?m" by (auto dest: set_takeWhileD)
    moreover from u have "u \<in> set xs" by (auto dest: set_takeWhileD)
    ultimately show "?m < f u" using mn by fastforce
  qed
  ultimately show ?thesis using s by auto
qed

lemma dominated_hd_sorted:
  assumes "cs \<noteq> []" and "dominated {} cs"
  shows "previousValue (hd (sort_key combinedTimestamp cs)) = Some 0"
proof -
  let ?c = "hd (sort_key combinedTimestamp cs)"
  from hd_sort_key_first_min[OF assms(1), of combinedTimestamp] obtain us ds
    where x: "cs = us @ ?c # ds" and lt: "\<forall>u\<in>set us. combinedTimestamp ?c < combinedTimestamp u"
    by blast
  from assms(2) have "dominated ({} \<union> combinedTimestamp ` set us) (?c # ds)"
    by (subst (asm) x) (simp only: dominated_append)
  then have "previousValue ?c = Some 0 \<or> (\<exists>t\<in>combinedTimestamp ` set us. t \<le> combinedTimestamp ?c)"
    by simp
  with lt show ?thesis by fastforce
qed

lemma deltaSum_append: "deltaSum T (as @ bs) = deltaSum T as + deltaSum T bs"
  by (simp add: deltaSum_def)

lemma deltaSum_concat: "deltaSum T (concat css) = sum_list (map (deltaSum T) css)"
  by (induction css) (simp_all add: deltaSum_append, simp add: deltaSum_def)

lemma deltaSum_sort: "deltaSum T (sort_key f cs) = deltaSum T cs"
proof -
  have "mset (map deltaOf (filter (\<lambda>c. combinedTimestamp c \<le> T) (sort_key f cs))) =
        mset (map deltaOf (filter (\<lambda>c. combinedTimestamp c \<le> T) cs))"
    by simp
  then have "sum_mset (mset (map deltaOf (filter (\<lambda>c. combinedTimestamp c \<le> T) (sort_key f cs)))) =
        sum_mset (mset (map deltaOf (filter (\<lambda>c. combinedTimestamp c \<le> T) cs)))"
    by (rule arg_cong)
  then show ?thesis unfolding deltaSum_def by (simp only: sum_mset_sum_list)
qed

lemma lastItem_Cons: "lastItem (x # xs) = (case lastItem xs of None \<Rightarrow> Some x | Some y \<Rightarrow> Some y)"
  by (cases xs rule: rev_cases) (simp_all add: lastItem_def)

lemma latestOr_Cons:
  "latestOr d fromTimestamp T (b # bs) =
     latestOr (if seenBy fromTimestamp T b then itemValue b else d) fromTimestamp T bs"
  by (simp add: latestOr_def lastItem_Cons split: option.splits)

lemma latestOr_none:
  "\<forall>b\<in>set bs. \<not> seenBy fromTimestamp T b \<Longrightarrow> latestOr d fromTimestamp T bs = d"
proof -
  assume "\<forall>b\<in>set bs. \<not> seenBy fromTimestamp T b"
  then have "filter (seenBy fromTimestamp T) bs = []" by (simp add: filter_empty_conv)
  then show ?thesis by (simp add: latestOr_def lastItem_def)
qed

lemma collectToken_telescope:
  assumes "sorted (map timestamp ((case previous of None \<Rightarrow> [] | Some p \<Rightarrow> [p]) @ xs))"
    and "\<forall>b\<in>set ((case previous of None \<Rightarrow> [] | Some p \<Rightarrow> [p]) @ xs).
           timestamp b = Some 0 \<longrightarrow> 0 < fromTimestamp"
  shows "deltaSum T (collectToken a fromTimestamp previous xs) =
           the (latestOr (previousValueOf fromTimestamp previous) fromTimestamp T xs) -
           the (previousValueOf fromTimestamp previous)"
  using assms
proof (induction xs arbitrary: previous)
  case Nil
  show ?case by (simp add: deltaSum_def latestOr_def lastItem_def)
next
  case (Cons b bs)
  let ?pl = "case previous of None \<Rightarrow> [] | Some p \<Rightarrow> [p]"
  from Cons.prems(1) have sb: "sorted (map timestamp (b # bs))"
    by (simp add: sorted_append)
  then have le: "\<forall>d\<in>set bs. timestamp b \<le> timestamp d" by simp
  from Cons.prems(2) have zb: "\<forall>d\<in>set (b # bs). timestamp d = Some 0 \<longrightarrow> 0 < fromTimestamp" by auto
  have ih: "deltaSum T (collectToken a fromTimestamp (Some b) bs) =
           the (latestOr (previousValueOf fromTimestamp (Some b)) fromTimestamp T bs) -
           the (previousValueOf fromTimestamp (Some b))"
    using Cons.IH[of "Some b"] sb zb by simp
  have rb: "js_ge (timestamp b) (Some fromTimestamp) =
           (\<exists>t. timestamp b = Some t \<and> \<not> (t = 0 \<or> t < fromTimestamp))"
    using js_ge_in_range[of b fromTimestamp] zb by simp
  show ?case
  proof (cases "\<exists>t. timestamp b = Some t \<and> \<not> (t = 0 \<or> t < fromTimestamp)")
    case True
    then obtain t where t: "timestamp b = Some t" "\<not> (t = 0 \<or> t < fromTimestamp)" by blast
    with rb have pb: "previousValueOf fromTimestamp (Some b) = itemValue b"
      by (simp add: previousValueOf_def)
    let ?c = "\<lparr>tokenAddress = a, combinedTimestamp = t, combinedValue = itemValue b,
                 previousValue = previousValueOf fromTimestamp previous\<rparr>"
    have ct: "collectToken a fromTimestamp previous (b # bs) =
        ?c # collectToken a fromTimestamp (Some b) bs" using t by simp
    show ?thesis
    proof (cases "t \<le> T")
      case tT: True
      then have sn: "seenBy fromTimestamp T b" using t by (simp add: seenBy_def)
      have "deltaSum T (collectToken a fromTimestamp previous (b # bs)) =
          deltaOf ?c + deltaSum T (collectToken a fromTimestamp (Some b) bs)"
        unfolding ct using tT by (simp add: deltaSum_Cons_ge)
      then show ?thesis using ih pb sn by (simp add: latestOr_Cons deltaOf_def)
    next
      case tT: False
      then have sn: "\<not> seenBy fromTimestamp T b" using t by (simp add: seenBy_def)
      have "\<forall>d\<in>set bs. \<not> seenBy fromTimestamp T d"
      proof
        fix d assume "d \<in> set bs"
        with le t have "Some t \<le> timestamp d" by simp
        with tT show "\<not> seenBy fromTimestamp T d" by (cases "timestamp d") (auto simp: seenBy_def)
      qed
      then have ln: "latestOr e fromTimestamp T bs = e" for e by (rule latestOr_none)
      have "deltaSum T (collectToken a fromTimestamp previous (b # bs)) =
          deltaSum T (collectToken a fromTimestamp (Some b) bs)"
        unfolding ct using tT by (simp add: deltaSum_def)
      then show ?thesis using ih sn ln by (simp add: latestOr_Cons)
    qed
  next
    case False
    with rb have "\<not> js_ge (timestamp b) (Some fromTimestamp)" by blast
    then have pb: "previousValueOf fromTimestamp (Some b) = Some 0"
      by (simp add: previousValueOf_def)
    from False have sn: "\<not> seenBy fromTimestamp T b"
      by (cases "timestamp b") (auto simp: seenBy_def)
    have ct: "collectToken a fromTimestamp previous (b # bs) = collectToken a fromTimestamp (Some b) bs"
      using False by (cases "timestamp b") auto
    have pp: "previousValueOf fromTimestamp previous = Some 0"
    proof (cases previous)
      case None
      then show ?thesis by (simp add: previousValueOf_def)
    next
      case (Some p)
      have "\<not> js_ge (timestamp p) (Some fromTimestamp)"
      proof
        assume g: "js_ge (timestamp p) (Some fromTimestamp)"
        then obtain tp where tp: "timestamp p = Some tp" "fromTimestamp \<le> tp"
          by (cases "timestamp p") (auto simp: js_ge_def)
        from Cons.prems(1) Some have "timestamp p \<le> timestamp b" by simp
        with tp obtain tb where tb: "timestamp b = Some tb" "tp \<le> tb"
          by (cases "timestamp b") auto
        with False have "tb = 0 \<or> tb < fromTimestamp" by simp
        with tb tp zb show False by auto
      qed
      with Some show ?thesis by (simp add: previousValueOf_def)
    qed
    show ?thesis unfolding ct using ih pb pp sn by (simp add: latestOr_Cons)
  qed
qed

lemma js_sum_Some:
  "\<forall>x\<in>set xs. x \<noteq> None \<Longrightarrow> js_sum xs = Some (sum_list (map the xs))"
  by (induction xs) (auto simp: js_sum_def js_add_def)

lemma collectToken_values:
  assumes "\<forall>b\<in>set xs. itemValue b \<noteq> None" and "previousValueOf fromTimestamp previous \<noteq> None"
  shows "\<forall>c\<in>set (collectToken a fromTimestamp previous xs). combinedValue c \<noteq> None \<and> previousValue c \<noteq> None"
  using assms
proof (induction xs arbitrary: previous)
  case Nil
  show ?case by simp
next
  case (Cons b bs)
  from Cons.prems have "previousValueOf fromTimestamp (Some b) \<noteq> None"
    by (auto simp: previousValueOf_def)
  with Cons.IH[of "Some b"] Cons.prems show ?case
    by (auto split: option.splits if_splits)
qed

text \<open>
  In exact arithmetic, for per-asset series sorted by timestamp (entries without a
  timestamp first) whose entries all carry a value and of which none at or after the range
  start has the timestamp 0, the aggregate series built by the delta walk has one entry
  for each distinct timestamp of the range, in ascending order, and its value there is the
  naive re-sum: the changes of each asset add up to its latest value.
\<close>

lemma totalSeries_naive:
  assumes so: "\<forall>(a, items)\<in>set balances. sorted (map timestamp items)"
    and vl: "\<forall>(a, items)\<in>set balances. \<forall>b\<in>set items. itemValue b \<noteq> None"
    and ze: "\<forall>(a, items)\<in>set balances. \<forall>b\<in>set items. timestamp b = Some 0 \<longrightarrow> 0 < fromTimestamp"
  shows "totalSeries balances fromTimestamp =
           map (\<lambda>T. totalItem T (naiveTotalAt balances fromTimestamp T))
             (emittedTimestamps balances fromTimestamp)"
proof -
  let ?L = "combinedBalances balances fromTimestamp"
  let ?S = "sort_key combinedTimestamp ?L"
  have vp: "\<forall>c\<in>set ?S. combinedValue c \<noteq> None \<and> previousValue c \<noteq> None"
  proof -
    have "\<forall>c\<in>set (collectToken a fromTimestamp None items). combinedValue c \<noteq> None \<and> previousValue c \<noteq> None"
      if "(a, items) \<in> set balances" for a items
    proof -
      from vl that have "\<forall>b\<in>set items. itemValue b \<noteq> None" by fastforce
      then show ?thesis
        by (rule collectToken_values) (simp add: previousValueOf_def)
    qed
    then show ?thesis by (auto simp: combinedBalances_def)
  qed
  have hd0: "?S \<noteq> [] \<longrightarrow> previousValue (hd ?S) = Some 0"
  proof
    assume "?S \<noteq> []"
    then have "?L \<noteq> []" by auto
    then show "previousValue (hd ?S) = Some 0"
      using combinedBalances_dominated[OF so ze] by (rule dominated_hd_sorted)
  qed
  have nv: "naiveTotalAt balances fromTimestamp T = Some (deltaSum T ?S)" for T
  proof -
    have one: "deltaSum T (collectToken a fromTimestamp None items) =
               the (latestValueAt fromTimestamp T items)"
      if "(a, items) \<in> set balances" for a items
    proof -
      from so that have 1: "sorted (map timestamp items)" by fastforce
      from ze that have 2: "\<forall>b\<in>set items. timestamp b = Some 0 \<longrightarrow> 0 < fromTimestamp" by fastforce
      from collectToken_telescope[of None items fromTimestamp T a] 1 2 show ?thesis
        by (simp add: previousValueOf_def latestOr_def latestValueAt_def)
    qed
    have "deltaSum T ?S = deltaSum T ?L" by (rule deltaSum_sort)
    also have "\<dots> = sum_list (map (\<lambda>(a, items). deltaSum T (collectToken a fromTimestamp None items)) balances)"
      by (simp add: combinedBalances_def deltaSum_concat comp_def case_prod_unfold)
    also have "\<dots> = sum_list (map (\<lambda>(a, items). the (latestValueAt fromTimestamp T items)) balances)"
      by (rule arg_cong[where f = sum_list], rule map_cong[OF refl]) (use one in auto)
    finally have d: "deltaSum T ?S =
        sum_list (map (\<lambda>(a, items). the (latestValueAt fromTimestamp T items)) balances)" .
    have "\<forall>x\<in>set (map (\<lambda>(a, items). latestValueAt fromTimestamp T items) balances). x \<noteq> None"
    proof -
      have "latestValueAt fromTimestamp T items \<noteq> None" if "(a, items) \<in> set balances" for a items
      proof (cases "lastItem (filter (seenBy fromTimestamp T) items)")
        case None
        then show ?thesis by (simp add: latestValueAt_def)
      next
        case (Some b)
        then have "filter (seenBy fromTimestamp T) items \<noteq> []" by (auto simp: lastItem_def)
        with Some have "b = last (filter (seenBy fromTimestamp T) items)"
          by (cases "filter (seenBy fromTimestamp T) items" rule: rev_cases) (auto simp: lastItem_def)
        with \<open>filter (seenBy fromTimestamp T) items \<noteq> []\<close> have "b \<in> set (filter (seenBy fromTimestamp T) items)"
          using last_in_set by blast
        then have "b \<in> set items" by simp
        with vl that Some show ?thesis by (auto simp: latestValueAt_def)
      qed
      then show ?thesis by auto
    qed
    from js_sum_Some[OF this] d show ?thesis
      by (simp add: naiveTotalAt_def comp_def case_prod_unfold)
  qed
  have "totalSeries balances fromTimestamp =
          map (\<lambda>T. totalItem T (Some (deltaSum T ?S))) (remdups_adj (map combinedTimestamp ?S))"
    unfolding totalSeries_def by (rule walk_deltaSum[OF sorted_sort_key vp hd0])
  then show ?thesis by (simp add: nv emittedTimestamps_def)
qed

text \<open>
  Why the entries at timestamp 0 are left out above. With the range starting at 0 and an
  asset B with an entry at timestamp 0, the entry is skipped as falsy, yet it counts as
  the previous entry of B's entry at 2, so the walk subtracts a value 5 it never added:
  3 + 7 - 5 = 5, where the re-sum of A and B at 2 is 3 + 7 = 10. Block and price
  timestamps are not 0, and \<open>main\<close> replaces a range start of 0 by its default, so no
  run of the script has such an entry.
\<close>

lemma totalSeries_zero_timestamp:
  "totalSeries [(''A'', [sample 1 3]), (''B'', [sample 0 5, sample 2 7])] 0 \<noteq>
     map (\<lambda>T. totalItem T (naiveTotalAt [(''A'', [sample 1 3]), (''B'', [sample 0 5, sample 2 7])] 0 T))
       (emittedTimestamps [(''A'', [sample 1 3]), (''B'', [sample 0 5, sample 2 7])] 0)"
proof -
  have "totalSeries [(''A'', [sample 1 3]), (''B'', [sample 0 5, sample 2 7])] 0 =
          [totalItem 1 (Some 3), totalItem 2 (Some 5)]"
    by code_simp
  moreover have "map (\<lambda>T. totalItem T (naiveTotalAt [(''A'', [sample 1 3]), (''B'', [sample 0 5, sample 2 7])] 0 T))
       (emittedTimestamps [(''A'', [sample 1 3]), (''B'', [sample 0 5, sample 2 7])] 0) =
          [totalItem 1 (Some 3), totalItem 2 (Some 10)]"
    by code_simp
  ultimately show ?thesis by (simp add: totalItem_def emptyItem_def)
qed

text \<open>
  When no operation rounds, the walk and the re-sum in double arithmetic are the exact
  ones.
\<close>

lemma totalStepFl_unrounded:
  "unrounded rnd (totalStepTrace totals c) \<Longrightarrow> totalStepFl rnd totals c = totalStep totals c"
  by (cases "lastItem totals")
    (auto simp: totalStepTrace_def totalStepFl_def totalStep_def fl_add_def fl_sub_def)

lemma totalFl_unrounded:
  "unrounded rnd (totalTrace totals cs) \<Longrightarrow> foldl (totalStepFl rnd) totals cs = foldl totalStep totals cs"
  by (induction cs arbitrary: totals) (simp_all add: totalStepFl_unrounded)

lemma totalSeriesFl_unrounded:
  "unrounded rnd (totalSeriesTrace balances fromTimestamp) \<Longrightarrow>
     totalSeriesFl rnd balances fromTimestamp = totalSeries balances fromTimestamp"
  by (simp add: totalSeriesFl_def totalSeries_def totalSeriesTrace_def totalFl_unrounded)

lemma fl_sum_unrounded:
  "unrounded rnd (sumTrace xs) \<Longrightarrow> fl_sum rnd xs = js_sum xs"
  by (induction xs) (simp_all add: fl_sum_def js_sum_def fl_add_def)

lemma naiveTotalAtFl_unrounded:
  "unrounded rnd (naiveTrace balances fromTimestamp T) \<Longrightarrow>
     naiveTotalAtFl rnd balances fromTimestamp T = naiveTotalAt balances fromTimestamp T"
  by (simp add: naiveTotalAtFl_def naiveTotalAt_def naiveTrace_def fl_sum_unrounded)

lemma totalSeriesFl_exact: "totalSeriesFl Some balances fromTimestamp = totalSeries balances fromTimestamp"
proof -
  have "totalStepFl Some = totalStep"
    by (intro ext) (simp add: totalStepFl_def totalStep_def fl_add_def fl_sub_def
        split: option.splits)
  then show ?thesis by (simp add: totalSeriesFl_def totalSeries_def)
qed

text \<open>
  Claim C8, amended to a merge and a re-sum in which no operation rounds. For per-asset
  series sorted by timestamp (entries without a timestamp first) whose entries all carry a
  value and of which none at or after the range start has the timestamp 0: when every
  addition and subtraction of the walk, and every addition of the re-sum at each emitted
  timestamp, has an exact result that is a double, the aggregate series built by the delta
  walk in double arithmetic has one entry for each distinct timestamp of the range, in
  ascending order, and its value there is the naive re-sum in double arithmetic: the sum
  over the assets of the latest value seen by that timestamp, an asset not seen yet
  counting as 0.
\<close>

theorem totalSeriesFl_naive:
  assumes so: "\<forall>(a, items)\<in>set balances. sorted (map timestamp items)"
    and vl: "\<forall>(a, items)\<in>set balances. \<forall>b\<in>set items. itemValue b \<noteq> None"
    and ze: "\<forall>(a, items)\<in>set balances. \<forall>b\<in>set items. timestamp b = Some 0 \<longrightarrow> 0 < fromTimestamp"
    and nw: "unrounded rnd (totalSeriesTrace balances fromTimestamp)"
    and nn: "\<forall>T\<in>set (emittedTimestamps balances fromTimestamp).
               unrounded rnd (naiveTrace balances fromTimestamp T)"
  shows "totalSeriesFl rnd balances fromTimestamp =
           map (\<lambda>T. totalItem T (naiveTotalAtFl rnd balances fromTimestamp T))
             (emittedTimestamps balances fromTimestamp)"
  using totalSeries_naive[OF so vl ze] nn
  by (simp add: totalSeriesFl_unrounded[OF nw] naiveTotalAtFl_unrounded)

text \<open>
  Two assets, range start 100, in the arithmetic of doubles. ETH has an entry before the
  range (no timestamp) and two entries at 120; DAI has an entry at 90, before the range.
  Every result of the walk and of the re-sums is a small integer.
\<close>

theorem totalSeriesFl_naive_witness:
  "totalSeriesFl rnd53 demoBalances 100 =
     [totalItem 100 (Some 60), totalItem 110 (Some 65), totalItem 120 (Some 86), totalItem 130 (Some 84)] \<and>
   map (naiveTotalAtFl rnd53 demoBalances 100) [100, 110, 120, 130] = [Some 60, Some 65, Some 86, Some 84]"
proof -
  have so: "\<forall>(a, items)\<in>set demoBalances. sorted (map timestamp items)"
    by (simp add: demoBalances_def sample_def emptyItem_def)
  have vl: "\<forall>(a, items)\<in>set demoBalances. \<forall>b\<in>set items. itemValue b \<noteq> None"
    by (simp add: demoBalances_def sample_def emptyItem_def)
  have ze: "\<forall>(a, items)\<in>set demoBalances. \<forall>b\<in>set items. timestamp b = Some 0 \<longrightarrow> (0::rat) < 100"
    by simp
  have e: "emittedTimestamps demoBalances 100 = [100, 110, 120, 130]" by code_simp
  have w: "totalSeriesTrace demoBalances 100 =
      map (\<lambda>n. Some (of_int n)) [65, 65, 155, 95, - 10, 85, 1, 86, 90, 84]"
    by code_simp
  have nw: "unrounded rnd53 (totalSeriesTrace demoBalances 100)"
    unfolding w by (rule unrounded_rnd53_ints) simp
  have t1: "naiveTrace demoBalances 100 100 = map (\<lambda>n. Some (of_int n)) [60, 0]" by code_simp
  have t2: "naiveTrace demoBalances 100 110 = map (\<lambda>n. Some (of_int n)) [65, 5]" by code_simp
  have t3: "naiveTrace demoBalances 100 120 = map (\<lambda>n. Some (of_int n)) [86, 6]" by code_simp
  have t4: "naiveTrace demoBalances 100 130 = map (\<lambda>n. Some (of_int n)) [84, 4]" by code_simp
  have u1: "unrounded rnd53 (naiveTrace demoBalances 100 100)"
    unfolding t1 by (rule unrounded_rnd53_ints) simp
  have u2: "unrounded rnd53 (naiveTrace demoBalances 100 110)"
    unfolding t2 by (rule unrounded_rnd53_ints) simp
  have u3: "unrounded rnd53 (naiveTrace demoBalances 100 120)"
    unfolding t3 by (rule unrounded_rnd53_ints) simp
  have u4: "unrounded rnd53 (naiveTrace demoBalances 100 130)"
    unfolding t4 by (rule unrounded_rnd53_ints) simp
  have nn: "\<forall>T\<in>set (emittedTimestamps demoBalances 100). unrounded rnd53 (naiveTrace demoBalances 100 T)"
    unfolding e using u1 u2 u3 u4 by simp
  have n: "map (naiveTotalAt demoBalances 100) [100, 110, 120, 130] = [Some 60, Some 65, Some 86, Some 84]"
    by code_simp
  have nf: "map (naiveTotalAtFl rnd53 demoBalances 100) [100, 110, 120, 130] =
      map (naiveTotalAt demoBalances 100) [100, 110, 120, 130]"
    using u1 u2 u3 u4 by (simp add: naiveTotalAtFl_unrounded)
  from totalSeriesFl_naive[OF so vl ze nw nn] e nf n show ?thesis by simp
qed

text \<open>
  The claim as stated fails when an addition rounds. Asset A is worth \<open>1e17\<close> at 1 and 0
  at 3, asset B is worth 1 at 2, and the range starts at 1. At 2 the walk adds 1 to
  \<open>1e17\<close>, which rounds to \<open>1e17\<close>; at 3 it subtracts the previous value \<open>1e17\<close> of A
  and is left with 0, where the re-sum of the latest values at 3 is 0 + 1 = 1.
\<close>

theorem totalSeriesFl_rounding_counterexample:
  "totalSeriesFl rnd53 absorbingBalances 1 \<noteq>
     map (\<lambda>T. totalItem T (naiveTotalAtFl rnd53 absorbingBalances 1 T))
       (emittedTimestamps absorbingBalances 1)"
proof -
  have "totalSeriesFl rnd53 absorbingBalances 1 =
          [totalItem 1 (Some (10 ^ 17)), totalItem 2 (Some (10 ^ 17)), totalItem 3 (Some 0)]"
    by code_simp
  moreover have "map (\<lambda>T. totalItem T (naiveTotalAtFl rnd53 absorbingBalances 1 T))
       (emittedTimestamps absorbingBalances 1) =
          [totalItem 1 (Some (10 ^ 17)), totalItem 2 (Some (10 ^ 17)), totalItem 3 (Some 1)]"
    by code_simp
  ultimately show ?thesis by (simp add: totalItem_def emptyItem_def)
qed

text \<open>
  The operations of the walk and of the re-sum do not round when the values are integers
  and twice the sum of their magnitudes is below \<open>2 ^ 53\<close>: every running total and
  every partial sum is then an integer below \<open>2 ^ 53\<close>, and the aggregate series is the
  naive re-sum in the arithmetic of doubles.
\<close>

lemma deltaMass_nonneg: "0 \<le> deltaMass cs"
  unfolding deltaMass_def by (rule sum_list_nonneg) auto

lemma valueMass_nonneg: "0 \<le> valueMass items"
  unfolding valueMass_def by (rule sum_list_nonneg) auto

lemma deltaMass_Cons:
  "deltaMass (c # cs) = \<bar>the (combinedValue c)\<bar> + \<bar>the (previousValue c)\<bar> + deltaMass cs"
  by (simp add: deltaMass_def)

lemma deltaMass_append: "deltaMass (as @ bs) = deltaMass as + deltaMass bs"
  by (simp add: deltaMass_def)

lemma deltaMass_sort: "deltaMass (sort_key f cs) = deltaMass cs"
proof -
  let ?g = "\<lambda>c. \<bar>the (combinedValue c)\<bar> + \<bar>the (previousValue c)\<bar>"
  have "mset (map ?g (sort_key f cs)) = mset (map ?g cs)" by simp
  then have "sum_mset (mset (map ?g (sort_key f cs))) = sum_mset (mset (map ?g cs))"
    by (rule arg_cong)
  then show ?thesis unfolding deltaMass_def by (simp only: sum_mset_sum_list)
qed

lemma totalTrace_Ints:
  assumes "lastItem totals = Some l" and "itemValue l = Some r" and "r \<in> \<int>"
    and "\<forall>c\<in>set cs. \<exists>v p. combinedValue c = Some v \<and> previousValue c = Some p \<and> v \<in> \<int> \<and> p \<in> \<int>"
    and "\<bar>r\<bar> + deltaMass cs < 2 ^ 53"
  shows "unrounded rnd53 (totalTrace totals cs)"
  using assms
proof (induction cs arbitrary: totals l r)
  case Nil
  show ?case by simp
next
  case (Cons c cs)
  from Cons.prems(4) obtain v p where vp: "combinedValue c = Some v" "previousValue c = Some p"
    "v \<in> \<int>" "p \<in> \<int>" by auto
  from Cons.prems(4) have rest: "\<forall>c\<in>set cs. \<exists>v p. combinedValue c = Some v \<and> previousValue c = Some p \<and> v \<in> \<int> \<and> p \<in> \<int>"
    by simp
  from Cons.prems(5) vp have bd: "\<bar>r\<bar> + \<bar>v\<bar> + \<bar>p\<bar> + deltaMass cs < 2 ^ 53"
    by (simp add: deltaMass_Cons)
  note nn = deltaMass_nonneg[of cs]
  note r = Cons.prems(3)
  have e1: "fl rnd53 (Some (r + v)) = Some (r + v)"
    using r vp bd nn by (intro rnd53_Ints Ints_add) auto
  have e2: "fl rnd53 (Some (r + v - p)) = Some (r + v - p)"
    using r vp bd nn by (intro rnd53_Ints Ints_add Ints_diff) auto
  have e3: "fl rnd53 (Some (v - p)) = Some (v - p)"
    using r vp bd nn by (intro rnd53_Ints Ints_diff) auto
  have e4: "fl rnd53 (Some (r + (v - p))) = Some (r + (v - p))"
    using r vp bd nn by (intro rnd53_Ints Ints_add Ints_diff) auto
  show ?case
  proof (cases "js_lt (timestamp l) (Some (combinedTimestamp c))")
    case True
    have st: "totalStepTrace totals c = [Some (r + v), Some (r + v - p)]"
      using True Cons.prems(1,2) vp by (simp add: totalStepTrace_def js_add_def js_sub_def)
    have ts: "totalStep totals c = totals @ [totalItem (combinedTimestamp c) (Some (r + v - p))]"
      using True Cons.prems(1,2) vp by (simp add: totalStep_def js_add_def js_sub_def)
    have "unrounded rnd53 (totalTrace (totalStep totals c) cs)"
    proof (rule Cons.IH[OF _ _ _ rest])
      show "lastItem (totalStep totals c) = Some (totalItem (combinedTimestamp c) (Some (r + v - p)))"
        by (simp add: ts)
      show "itemValue (totalItem (combinedTimestamp c) (Some (r + v - p))) = Some (r + v - p)"
        by simp
      show "r + v - p \<in> \<int>" using r vp by (intro Ints_add Ints_diff)
      show "\<bar>r + v - p\<bar> + deltaMass cs < 2 ^ 53" using bd by linarith
    qed
    then show ?thesis using st e1 e2 by simp
  next
    case False
    have st: "totalStepTrace totals c = [Some (v - p), Some (r + (v - p))]"
      using False Cons.prems(1,2) vp by (simp add: totalStepTrace_def js_add_def js_sub_def)
    have ts: "totalStep totals c = butlast totals @ [l\<lparr>itemValue := Some (r + (v - p))\<rparr>]"
      using False Cons.prems(1,2) vp by (simp add: totalStep_def js_add_def js_sub_def)
    have "unrounded rnd53 (totalTrace (totalStep totals c) cs)"
    proof (rule Cons.IH[OF _ _ _ rest])
      show "lastItem (totalStep totals c) = Some (l\<lparr>itemValue := Some (r + (v - p))\<rparr>)"
        by (simp add: ts)
      show "itemValue (l\<lparr>itemValue := Some (r + (v - p))\<rparr>) = Some (r + (v - p))"
        by simp
      show "r + (v - p) \<in> \<int>" using r vp by (intro Ints_add Ints_diff)
      show "\<bar>r + (v - p)\<bar> + deltaMass cs < 2 ^ 53" using bd by linarith
    qed
    then show ?thesis using st e3 e4 by simp
  qed
qed

lemma collectToken_Ints:
  assumes "\<forall>b\<in>set xs. \<exists>r. itemValue b = Some r \<and> r \<in> \<int>"
    and "\<exists>r. previousValueOf fromTimestamp previous = Some r \<and> r \<in> \<int>"
  shows "\<forall>c\<in>set (collectToken a fromTimestamp previous xs).
           \<exists>v p. combinedValue c = Some v \<and> previousValue c = Some p \<and> v \<in> \<int> \<and> p \<in> \<int>"
  using assms
proof (induction xs arbitrary: previous)
  case Nil
  show ?case by simp
next
  case (Cons b bs)
  from Cons.prems have "\<exists>r. previousValueOf fromTimestamp (Some b) = Some r \<and> r \<in> \<int>"
    by (auto simp: previousValueOf_def)
  with Cons.IH[of "Some b"] Cons.prems show ?case
    by (auto split: option.splits if_splits)
qed

lemma deltaMass_collectToken:
  "deltaMass (collectToken a fromTimestamp previous xs) \<le>
     (case previous of None \<Rightarrow> 0 | Some p \<Rightarrow> \<bar>the (itemValue p)\<bar>) + 2 * valueMass xs"
proof (induction xs arbitrary: previous)
  case Nil
  show ?case by (simp add: deltaMass_def valueMass_def split: option.splits)
next
  case (Cons b bs)
  let ?pm = "case previous of None \<Rightarrow> 0 | Some p \<Rightarrow> \<bar>the (itemValue p)\<bar>"
  have pv: "\<bar>the (previousValueOf fromTimestamp previous)\<bar> \<le> ?pm"
    by (simp add: previousValueOf_def split: option.splits)
  have hd: "deltaMass (case timestamp b of None \<Rightarrow> []
      | Some t \<Rightarrow> if t = 0 \<or> t < fromTimestamp then []
          else [\<lparr>tokenAddress = a, combinedTimestamp = t, combinedValue = itemValue b,
                 previousValue = previousValueOf fromTimestamp previous\<rparr>])
      \<le> \<bar>the (itemValue b)\<bar> + ?pm"
  proof -
    have "0 \<le> ?pm" by (simp split: option.splits)
    with pv show ?thesis by (simp add: deltaMass_def split: option.splits)
  qed
  from Cons.IH[of "Some b"]
  have "deltaMass (collectToken a fromTimestamp (Some b) bs) \<le> \<bar>the (itemValue b)\<bar> + 2 * valueMass bs"
    by simp
  with hd show ?case by (simp add: deltaMass_append valueMass_def)
qed

lemma deltaMass_combinedBalances:
  "deltaMass (combinedBalances balances fromTimestamp) \<le> 2 * totalMass balances"
proof (induction balances)
  case Nil
  show ?case by (simp add: combinedBalances_def deltaMass_def totalMass_def)
next
  case (Cons x balances)
  obtain a items where x: "x = (a, items)" by (cases x)
  from deltaMass_collectToken[of a fromTimestamp None items]
  have "deltaMass (collectToken a fromTimestamp None items) \<le> 2 * valueMass items" by simp
  with Cons.IH show ?case
    by (simp add: combinedBalances_def deltaMass_append totalMass_def x)
qed

lemma elem_le_valueMass: "b \<in> set items \<Longrightarrow> \<bar>the (itemValue b)\<bar> \<le> valueMass items"
proof (induction items)
  case Nil
  then show ?case by simp
next
  case (Cons x items)
  from valueMass_nonneg[of items] have "0 \<le> sum_list (map (\<lambda>b. \<bar>the (itemValue b)\<bar>) items)"
    by (simp add: valueMass_def)
  with Cons show ?case by (auto simp: valueMass_def)
qed

lemma latestValueAt_Ints:
  assumes "\<forall>b\<in>set items. \<exists>r. itemValue b = Some r \<and> r \<in> \<int>"
  shows "\<exists>r. latestValueAt fromTimestamp T items = Some r \<and> r \<in> \<int> \<and> \<bar>r\<bar> \<le> valueMass items"
proof (cases "lastItem (filter (seenBy fromTimestamp T) items)")
  case None
  then show ?thesis using valueMass_nonneg[of items] by (simp add: latestValueAt_def)
next
  case (Some b)
  then have ne: "filter (seenBy fromTimestamp T) items \<noteq> []" by (auto simp: lastItem_def)
  with Some have "b = last (filter (seenBy fromTimestamp T) items)"
    by (cases "filter (seenBy fromTimestamp T) items" rule: rev_cases) (auto simp: lastItem_def)
  with ne have "b \<in> set (filter (seenBy fromTimestamp T) items)" using last_in_set by blast
  then have b: "b \<in> set items" by simp
  with assms obtain r where r: "itemValue b = Some r" "r \<in> \<int>" by auto
  from elem_le_valueMass[OF b] r have "\<bar>r\<bar> \<le> valueMass items" by simp
  with r Some show ?thesis by (simp add: latestValueAt_def)
qed

lemma sumTrace_Ints:
  assumes "\<forall>x\<in>set xs. \<exists>r. x = Some r \<and> r \<in> \<int>"
    and "sum_list (map (\<lambda>x. \<bar>the x\<bar>) xs) < 2 ^ 53"
  shows "unrounded rnd53 (sumTrace xs)"
  using assms
proof (induction xs)
  case Nil
  show ?case by simp
next
  case (Cons x xs)
  from Cons.prems(1) obtain r where x: "x = Some r" "r \<in> \<int>" by auto
  from Cons.prems(1) have si: "\<forall>x\<in>set xs. \<exists>r. x = Some r \<and> r \<in> \<int>" by simp
  then have sm: "js_sum xs = Some (sum_list (map the xs))" by (intro js_sum_Some) auto
  have zi: "sum_list (map the xs) \<in> \<int>"
    using si by (induction xs) auto
  have ab: "\<bar>sum_list (map the xs)\<bar> \<le> sum_list (map (\<lambda>x. \<bar>the x\<bar>) xs)"
    using sum_list_abs[of "map the xs"] by (simp add: comp_def)
  from Cons.prems(2) x have bd: "\<bar>r\<bar> + sum_list (map (\<lambda>x. \<bar>the x\<bar>) xs) < 2 ^ 53" by simp
  have "fl rnd53 (Some (r + sum_list (map the xs))) = Some (r + sum_list (map the xs))"
    using x zi ab bd by (intro rnd53_Ints Ints_add) auto
  moreover have "unrounded rnd53 (sumTrace xs)"
  proof (rule Cons.IH[OF si])
    have "0 \<le> \<bar>r\<bar>" by simp
    with bd show "sum_list (map (\<lambda>x. \<bar>the x\<bar>) xs) < 2 ^ 53" by linarith
  qed
  ultimately show ?case by (simp add: x sm js_add_def)
qed

lemma naiveTrace_Ints:
  assumes iv: "\<forall>(a, items)\<in>set balances. \<forall>b\<in>set items. \<exists>r. itemValue b = Some r \<and> r \<in> \<int>"
    and bd: "totalMass balances < 2 ^ 53"
  shows "unrounded rnd53 (naiveTrace balances fromTimestamp T)"
  unfolding naiveTrace_def
proof (rule sumTrace_Ints)
  let ?f = "\<lambda>(a, items). latestValueAt fromTimestamp T items"
  have one: "\<exists>r. latestValueAt fromTimestamp T items = Some r \<and> r \<in> \<int> \<and> \<bar>r\<bar> \<le> valueMass items"
    if "(a, items) \<in> set balances" for a items
    using iv that by (intro latestValueAt_Ints) auto
  show "\<forall>x\<in>set (map ?f balances). \<exists>r. x = Some r \<and> r \<in> \<int>"
    using one by fastforce
  have "sum_list (map (\<lambda>x. \<bar>the x\<bar>) (map ?f balances)) \<le> sum_list (map (\<lambda>(a, items). valueMass items) balances)"
    unfolding map_map comp_def
  proof (rule sum_list_mono)
    fix x assume xb: "x \<in> set balances"
    obtain a items where x1: "x = (a, items)" by (cases x)
    with xb have x: "x = (a, items)" "(a, items) \<in> set balances" by simp_all
    from one[OF x(2)] show "\<bar>the (?f x)\<bar> \<le> (case x of (a, items) \<Rightarrow> valueMass items)"
      by (auto simp: x(1))
  qed
  with bd show "sum_list (map (\<lambda>x. \<bar>the x\<bar>) (map ?f balances)) < 2 ^ 53"
    by (simp add: totalMass_def)
qed

lemma totalSeriesTrace_Ints:
  assumes iv: "\<forall>(a, items)\<in>set balances. \<forall>b\<in>set items. \<exists>r. itemValue b = Some r \<and> r \<in> \<int>"
    and bd: "2 * totalMass balances < 2 ^ 53"
  shows "unrounded rnd53 (totalSeriesTrace balances fromTimestamp)"
proof -
  let ?L = "combinedBalances balances fromTimestamp"
  let ?S = "sort_key combinedTimestamp ?L"
  have ints: "\<forall>c\<in>set ?S. \<exists>v p. combinedValue c = Some v \<and> previousValue c = Some p \<and> v \<in> \<int> \<and> p \<in> \<int>"
  proof -
    have "\<forall>c\<in>set (collectToken a fromTimestamp None items).
        \<exists>v p. combinedValue c = Some v \<and> previousValue c = Some p \<and> v \<in> \<int> \<and> p \<in> \<int>"
      if "(a, items) \<in> set balances" for a items
    proof (rule collectToken_Ints)
      from iv that show "\<forall>b\<in>set items. \<exists>r. itemValue b = Some r \<and> r \<in> \<int>" by fastforce
      show "\<exists>r. previousValueOf fromTimestamp None = Some r \<and> r \<in> \<int>"
        by (simp add: previousValueOf_def)
    qed
    then show ?thesis by (auto simp: combinedBalances_def)
  qed
  have dm: "deltaMass ?S < 2 ^ 53"
    using deltaMass_combinedBalances[of balances fromTimestamp] bd by (simp add: deltaMass_sort)
  show ?thesis
  proof (cases ?S)
    case Nil
    then show ?thesis by (simp add: totalSeriesTrace_def)
  next
    case (Cons c cs)
    from ints Cons obtain v p where vp: "combinedValue c = Some v" "previousValue c = Some p"
      "v \<in> \<int>" "p \<in> \<int>" by auto
    have ts: "totalStep [] c = [totalItem (combinedTimestamp c) (Some v)]"
      by (simp add: totalStep_def vp)
    have "unrounded rnd53 (totalTrace [totalItem (combinedTimestamp c) (Some v)] cs)"
    proof (rule totalTrace_Ints)
      show "lastItem [totalItem (combinedTimestamp c) (Some v)] = Some (totalItem (combinedTimestamp c) (Some v))"
        by (simp add: lastItem_def)
      show "itemValue (totalItem (combinedTimestamp c) (Some v)) = Some v" by simp
      show "v \<in> \<int>" by (rule vp)
      show "\<forall>c\<in>set cs. \<exists>v p. combinedValue c = Some v \<and> previousValue c = Some p \<and> v \<in> \<int> \<and> p \<in> \<int>"
        using ints Cons by simp
      from dm Cons vp have "\<bar>v\<bar> + \<bar>p\<bar> + deltaMass cs < 2 ^ 53" by (simp add: deltaMass_Cons)
      then show "\<bar>v\<bar> + deltaMass cs < 2 ^ 53" by linarith
    qed
    then show ?thesis
      by (simp add: totalSeriesTrace_def Cons totalStepTrace_def lastItem_def ts)
  qed
qed

lemma totalSeriesFl_naive_Ints:
  assumes so: "\<forall>(a, items)\<in>set balances. sorted (map timestamp items)"
    and ze: "\<forall>(a, items)\<in>set balances. \<forall>b\<in>set items. timestamp b = Some 0 \<longrightarrow> 0 < fromTimestamp"
    and iv: "\<forall>(a, items)\<in>set balances. \<forall>b\<in>set items. \<exists>r. itemValue b = Some r \<and> r \<in> \<int>"
    and bd: "2 * totalMass balances < 2 ^ 53"
  shows "totalSeriesFl rnd53 balances fromTimestamp =
           map (\<lambda>T. totalItem T (naiveTotalAtFl rnd53 balances fromTimestamp T))
             (emittedTimestamps balances fromTimestamp)"
proof -
  have vl: "\<forall>(a, items)\<in>set balances. \<forall>b\<in>set items. itemValue b \<noteq> None"
    using iv by fastforce
  have "0 \<le> totalMass balances"
    unfolding totalMass_def by (rule sum_list_nonneg) (auto simp: valueMass_nonneg)
  with bd have bd1: "totalMass balances < 2 ^ 53" by linarith
  show ?thesis
    using totalSeries_naive[OF so vl ze]
    by (simp add: totalSeriesFl_unrounded[OF totalSeriesTrace_Ints[OF iv bd]]
        naiveTotalAtFl_unrounded[OF naiveTrace_Ints[OF iv bd1]])
qed

end
